theory Spec2Isabelle
  imports Complex_Main "HOL-Library.While_Combinator" "HOL-Library.Char_ord"
    "HOL-Library.List_Lexorder" "HOL-Library.Product_Lexorder"
begin

section \<open>Strings\<close>

text \<open>
  Python strings are modelled as \<open>string\<close> (lists of 8-bit characters), so the model
  covers ASCII text. \<open>lower\<close> is \<open>str.lower\<close> on ASCII letters and \<open>str_contains sub s\<close>
  is the Python test \<open>sub in s\<close>.
\<close>

definition lower_char :: "char \<Rightarrow> char" where
  "lower_char c =
     (let n = (of_char c :: nat) in if 65 \<le> n \<and> n \<le> 90 then char_of (n + 32) else c)"

definition lower :: "string \<Rightarrow> string" where
  "lower s = map lower_char s"

fun starts_with :: "string \<Rightarrow> string \<Rightarrow> bool" where
  "starts_with [] s = True"
| "starts_with (p # ps) [] = False"
| "starts_with (p # ps) (c # cs) = (p = c \<and> starts_with ps cs)"

fun str_contains :: "string \<Rightarrow> string \<Rightarrow> bool" where
  "str_contains sub [] = (sub = [])"
| "str_contains sub (c # cs) = (starts_with sub (c # cs) \<or> str_contains sub cs)"

section \<open>Credit manager (resource\_optimization.py, class CreditManager)\<close>

text \<open>
  Credit amounts are Python floats in the source. They are modelled as exact reals:
  rounding, infinities and NaN are outside the model. The \<open>timestamp\<close> field that every
  history record takes from \<open>time.time()\<close> is left out of the records: no operation reads it.
\<close>

datatype usage_entry =
    Allocate_entry string real real  \<comment> \<open>component\_id, amount, balance after the call\<close>
  | Use_entry string real real       \<comment> \<open>component\_id, amount, allocation\_remaining\<close>

record credit_manager =
  balance :: real
  budget_limit :: "real option"
  usage_history :: "usage_entry list"
  allocations :: "string \<rightharpoonup> real"

definition CreditManager :: "real \<Rightarrow> real option \<Rightarrow> credit_manager" where
  "CreditManager initial_balance limit =
     \<lparr>balance = initial_balance, budget_limit = limit, usage_history = [],
      allocations = Map.empty\<rparr>"

definition get_allocation :: "credit_manager \<Rightarrow> string \<Rightarrow> real" where
  "get_allocation cm component_id =
     (case allocations cm component_id of None \<Rightarrow> 0 | Some a \<Rightarrow> a)"

definition get_balance :: "credit_manager \<Rightarrow> real" where
  "get_balance cm = balance cm"

definition over_budget :: "credit_manager \<Rightarrow> real \<Rightarrow> bool" where
  "over_budget cm amount =
     (case budget_limit cm of None \<Rightarrow> False | Some cap \<Rightarrow> balance cm + amount > cap)"

definition allocate_credits :: "credit_manager \<Rightarrow> string \<Rightarrow> real \<Rightarrow> bool \<times> credit_manager" where
  "allocate_credits cm component_id amount =
     (if over_budget cm amount then (False, cm)
      else (True,
        cm\<lparr>allocations := (allocations cm)(component_id \<mapsto> get_allocation cm component_id + amount),
           balance := balance cm + amount,
           usage_history := usage_history cm @ [Allocate_entry component_id amount (balance cm + amount)]\<rparr>))"

definition use_credits :: "credit_manager \<Rightarrow> string \<Rightarrow> real \<Rightarrow> bool \<times> credit_manager" where
  "use_credits cm component_id amount =
     (let allocation = get_allocation cm component_id in
      if allocation < amount then (False, cm)
      else (True,
        cm\<lparr>allocations := (allocations cm)(component_id \<mapsto> allocation - amount),
           usage_history := usage_history cm @ [Use_entry component_id amount (allocation - amount)]\<rparr>))"

text \<open>A call of one of the two mutating operations, and a sequence of calls run in order.\<close>

datatype credit_call = Allocate string real | Use string real

fun credit_step :: "credit_manager \<Rightarrow> credit_call \<Rightarrow> credit_manager" where
  "credit_step cm (Allocate c a) = snd (allocate_credits cm c a)"
| "credit_step cm (Use c a) = snd (use_credits cm c a)"

definition run_calls :: "credit_manager \<Rightarrow> credit_call list \<Rightarrow> credit_manager" where
  "run_calls cm calls = foldl credit_step cm calls"

fun allocate_amounts_nonneg :: "credit_call list \<Rightarrow> bool" where
  "allocate_amounts_nonneg [] = True"
| "allocate_amounts_nonneg (Allocate c a # cs) = (0 \<le> a \<and> allocate_amounts_nonneg cs)"
| "allocate_amounts_nonneg (Use c a # cs) = allocate_amounts_nonneg cs"

section \<open>Sleep-time task scheduler (sleep\_optimizer.py)\<close>

datatype TaskPriority = LOW | MEDIUM | HIGH | CRITICAL

fun priority_value :: "TaskPriority \<Rightarrow> int" where
  "priority_value LOW = 0"
| "priority_value MEDIUM = 1"
| "priority_value HIGH = 2"
| "priority_value CRITICAL = 3"

text \<open>The enum constructor \<open>TaskPriority(v)\<close>: a ValueError (here \<open>None\<close>) outside 0..3.\<close>

definition TaskPriority_of :: "int \<Rightarrow> TaskPriority option" where
  "TaskPriority_of v =
     (if v = 0 then Some LOW else if v = 1 then Some MEDIUM else if v = 2 then Some HIGH
      else if v = 3 then Some CRITICAL else None)"

datatype sleep_status = pending | scheduled | running | completed | failed

record sleep_task =
  st_name :: string
  st_description :: string
  st_priority :: TaskPriority
  estimated_duration :: real
  estimated_resources :: "(string \<times> real) list"  \<comment> \<open>the items of the dict\<close>
  st_dependencies :: "string list"
  scheduled_at :: "real option"
  started_at :: "real option"
  completed_at :: "real option"
  st_status :: sleep_status
  st_result :: "string option"
  st_error :: "string option"

text \<open>
  The resource monitor keeps usage and limit for the three resources cpu, memory and
  credits. A limit of \<open>None\<close> stands for \<open>float("inf")\<close>, the default limit of credits.
\<close>

record resource_monitor =
  resource_usage :: "string \<Rightarrow> real"
  resource_limits :: "string \<Rightarrow> real option"

definition monitored :: "string list" where
  "monitored = [''cpu'', ''memory'', ''credits'']"

text \<open>\<open>get_available_resources\<close>: \<open>max(0.0, limit - usage)\<close> per monitored resource.\<close>

definition get_available_resources :: "resource_monitor \<Rightarrow> string \<Rightarrow> real option option" where
  "get_available_resources rm resource =
     (if resource \<in> set monitored
      then Some (case resource_limits rm resource of
                   None \<Rightarrow> None
                 | Some l \<Rightarrow> Some (max 0 (l - resource_usage rm resource)))
      else None)"

definition can_execute_task :: "resource_monitor \<Rightarrow> sleep_task \<Rightarrow> bool" where
  "can_execute_task rm task =
     list_all (\<lambda>(resource, required).
        case get_available_resources rm resource of
          None \<Rightarrow> True
        | Some None \<Rightarrow> True
        | Some (Some avail) \<Rightarrow> \<not> avail < required)
       (estimated_resources task)"

text \<open>
  \<open>task_queue\<close> is a \<open>heapq\<close> heap of pairs \<open>(priority_score, task_id)\<close>, touched only by
  \<open>heappush\<close>, \<open>heappop\<close> and the peek \<open>task_queue[0]\<close>. The heap is modelled by the
  ascending list of its entries (pairs compare lexicographically, as Python tuples do):
  the peek is the head, \<open>heappop\<close> drops the head, \<open>heappush\<close> inserts in order. Both the
  smallest entry and the entries left after each operation are the same for every array
  layout of a heap holding the same entries.
\<close>

type_synonym queue_entry = "int \<times> string"

definition heappush :: "queue_entry list \<Rightarrow> queue_entry \<Rightarrow> queue_entry list" where
  "heappush q e = insort e q"

record task_scheduler =
  monitor :: resource_monitor
  task_queue :: "queue_entry list"
  sleep_tasks :: "string \<rightharpoonup> sleep_task"
  scheduled_tasks :: "string set"
  completed_tasks :: "string set"
  failed_tasks :: "string set"

text \<open>The exceptions the modelled code raises, with their message.\<close>

datatype py_error =
    ValueError string
  | KeyError string
  | AttributeError string
  | ProviderError string  \<comment> \<open>whatever a provider call raises\<close>

definition sched_add_task :: "task_scheduler \<Rightarrow> string \<Rightarrow> sleep_task \<Rightarrow> py_error + task_scheduler" where
  "sched_add_task s task_id task =
     (if task_id \<in> dom (sleep_tasks s) then Inl (ValueError task_id)
      else Inr (s\<lparr>sleep_tasks := (sleep_tasks s)(task_id \<mapsto> task),
                 task_queue := heappush (task_queue s) (- priority_value (st_priority task), task_id)\<rparr>))"

definition dependencies_met :: "task_scheduler \<Rightarrow> sleep_task \<Rightarrow> bool" where
  "dependencies_met s task = list_all (\<lambda>dep_id. dep_id \<in> completed_tasks s) (st_dependencies task)"

text \<open>
  \<open>get_next_task\<close>. The \<open>while\<close> loop of the source need not end, so the function is
  partial: the value \<open>None\<close> of the outer option means that the call does not return.
  A returning call yields the task handed out (Python \<open>None\<close> when none is ready) or the
  KeyError of \<open>self.tasks[task_id]\<close>, and the scheduler after the call. \<open>now\<close> is the
  reading of \<open>time.time()\<close>.
\<close>

partial_function (option) get_next_task ::
  "real \<Rightarrow> task_scheduler \<Rightarrow> ((py_error + sleep_task option) \<times> task_scheduler) option" where
  "get_next_task now s =
     (case task_queue s of
        [] \<Rightarrow> Some (Inr None, s)
      | (score, task_id) # rest \<Rightarrow>
          (case sleep_tasks s task_id of
             None \<Rightarrow> Some (Inl (KeyError task_id), s)
           | Some task \<Rightarrow>
               if task_id \<in> scheduled_tasks s \<or> task_id \<in> completed_tasks s
               then get_next_task now (s\<lparr>task_queue := rest\<rparr>)
               else if \<not> dependencies_met s task
               then get_next_task now
                      (s\<lparr>task_queue := heappush rest (- priority_value (st_priority task), task_id)\<rparr>)
               else if \<not> can_execute_task (monitor s) task
               then Some (Inr None, s)
               else Some (Inr (Some (task\<lparr>st_status := scheduled, scheduled_at := Some now\<rparr>)),
                          s\<lparr>task_queue := rest,
                            scheduled_tasks := insert task_id (scheduled_tasks s),
                            sleep_tasks := (sleep_tasks s)
                              (task_id \<mapsto> task\<lparr>st_status := scheduled, scheduled_at := Some now\<rparr>)\<rparr>)))"

definition mark_task_completed ::
  "real \<Rightarrow> task_scheduler \<Rightarrow> string \<Rightarrow> string option \<Rightarrow> bool \<times> task_scheduler" where
  "mark_task_completed now s task_id res =
     (case sleep_tasks s task_id of
        None \<Rightarrow> (False, s)
      | Some task \<Rightarrow>
          (True, s\<lparr>sleep_tasks := (sleep_tasks s)
                      (task_id \<mapsto> task\<lparr>st_status := completed, completed_at := Some now,
                                         st_result := res\<rparr>),
                    scheduled_tasks := scheduled_tasks s - {task_id},
                    completed_tasks := insert task_id (completed_tasks s)\<rparr>))"

text \<open>
  \<open>mark_task_failed\<close>. The guard of the re-queue is \<open>error and "critical" not in
  error.lower()\<close>: the error is present, not empty, and has no \<open>critical\<close> in any letter
  case. The result is the returned boolean, or the ValueError that \<open>TaskPriority(v)\<close>
  raises outside 0..3 (after the task was already marked failed).
\<close>

definition requeue_wanted :: "string option \<Rightarrow> bool" where
  "requeue_wanted err =
     (case err of None \<Rightarrow> False
      | Some e \<Rightarrow> e \<noteq> [] \<and> \<not> str_contains ''critical'' (lower e))"

definition mark_task_failed ::
  "real \<Rightarrow> task_scheduler \<Rightarrow> string \<Rightarrow> string option \<Rightarrow> (py_error + bool) \<times> task_scheduler" where
  "mark_task_failed now s task_id err =
     (case sleep_tasks s task_id of
        None \<Rightarrow> (Inr False, s)
      | Some task \<Rightarrow>
          (let task1 = task\<lparr>st_status := failed, completed_at := Some now, st_error := err\<rparr>;
               s1 = s\<lparr>sleep_tasks := (sleep_tasks s)(task_id \<mapsto> task1),
                      scheduled_tasks := scheduled_tasks s - {task_id},
                      failed_tasks := insert task_id (failed_tasks s)\<rparr>
           in if requeue_wanted err
              then (let new_priority = max 0 (priority_value (st_priority task1) - 1)
                    in case TaskPriority_of new_priority of
                         None \<Rightarrow> (Inl (ValueError ''not a valid TaskPriority''), s1)
                       | Some p \<Rightarrow>
                           (let task2 = task1\<lparr>st_priority := p, st_status := pending,
                                              scheduled_at := None, completed_at := None\<rparr>
                            in (Inr True,
                                s1\<lparr>sleep_tasks := (sleep_tasks s1)(task_id \<mapsto> task2),
                                   task_queue := heappush (task_queue s1)
                                     (- priority_value (st_priority task2), task_id)\<rparr>)))
              else (Inr True, s1)))"

section \<open>Providers and the provider registry (model\_provider.py)\<close>

text \<open>
  A provider is an external collaborator, known by its interface. \<open>available_models\<close> is
  the list of the ids (\<open>model.get("id")\<close>) of \<open>list_available_models()\<close>, capabilities are
  the strings of the enum \<open>ModelCapability\<close>, \<open>estimate_cost m\<close> is the estimate for the
  standard prompt (\<open>None\<close> when the call raises) and \<open>execute_prompt n m prompt\<close> is the
  outcome of the \<open>n\<close>-th call made to any provider: a response, or the message of the
  exception raised.
\<close>

record response =
  resp_text :: "string option"
  resp_metadata :: "string option"

record provider =
  available_models :: "string list"
  model_capabilities :: "string \<Rightarrow> string list"
  estimate_cost :: "string \<Rightarrow> real option"
  execute_prompt :: "nat \<Rightarrow> string \<Rightarrow> string \<Rightarrow> string + response"

text \<open>
  The registry is a dict from provider id to provider; it is modelled by the list of its
  items in insertion order, whose keys \<open>register_provider\<close> keeps distinct.
\<close>

type_synonym registry = "(string \<times> provider) list"

definition register_provider :: "registry \<Rightarrow> string \<Rightarrow> provider \<Rightarrow> py_error + registry" where
  "register_provider reg provider_id p =
     (if provider_id \<in> set (map fst reg)
      then Inl (ValueError (''Provider with ID '' @ provider_id @ '' already registered''))
      else Inr (reg @ [(provider_id, p)]))"

definition get_provider :: "registry \<Rightarrow> string \<Rightarrow> py_error + provider" where
  "get_provider reg provider_id =
     (case map_of reg provider_id of
        None \<Rightarrow> Inl (KeyError (''No provider registered with ID '' @ provider_id))
      | Some p \<Rightarrow> Inr p)"

definition list_providers :: "registry \<Rightarrow> string list" where
  "list_providers reg = map fst reg"

section \<open>Cost-aware selector (resource\_optimization.py, class CostAwareSelector)\<close>

text \<open>
  The requirements dict: either key may be missing. A cost of \<open>float("inf")\<close> (the start
  value of the minimum, and the cost of a model whose estimate raises) is the value
  \<open>None\<close> of \<open>real option\<close>.
\<close>

record requirements =
  req_capabilities :: "string list option"
  max_cost :: "real option"

type_synonym cost_cache = "string \<times> string \<rightharpoonup> real"

record cost_selector =
  provider_registry :: registry
  credit_manager :: credit_manager
  cost_cache :: cost_cache

definition NoProvider :: py_error where
  "NoProvider = ValueError ''No provider found with required capabilities''"

definition NoAffordable :: py_error where
  "NoAffordable = ValueError ''No provider found within cost constraints''"

definition InsufficientCredits :: py_error where
  "InsufficientCredits = ValueError ''Insufficient credits for provider selection''"

text \<open>The candidate test: for each required capability, some model of the provider has it.\<close>

definition has_capability :: "provider \<Rightarrow> string \<Rightarrow> bool" where
  "has_capability p capability =
     list_ex (\<lambda>model_id. capability \<in> set (model_capabilities p model_id)) (available_models p)"

definition has_all_capabilities :: "provider \<Rightarrow> string list \<Rightarrow> bool" where
  "has_all_capabilities p required = list_all (has_capability p) required"

definition candidate_providers :: "registry \<Rightarrow> string list \<Rightarrow> (string \<times> provider) list" where
  "candidate_providers reg required = filter (\<lambda>(pid, p). has_all_capabilities p required) reg"

text \<open>\<open>min\<close> on costs, with \<open>None\<close> for infinity.\<close>

fun min_cost_of :: "real option \<Rightarrow> real option \<Rightarrow> real option" where
  "min_cost_of None b = b"
| "min_cost_of (Some a) None = Some a"
| "min_cost_of (Some a) (Some b) = Some (min a b)"

text \<open>A model is skipped when the requirements have capabilities and it lacks one of them.\<close>

definition meets :: "provider \<Rightarrow> string list option \<Rightarrow> string \<Rightarrow> bool" where
  "meets p caps model_id =
     (case caps of
        None \<Rightarrow> True
      | Some cs \<Rightarrow> list_all (\<lambda>cap. cap \<in> set (model_capabilities p model_id)) cs)"

text \<open>The loop of \<open>_estimate_provider_cost\<close> over the models, threading the cache.\<close>

fun estimate_models ::
  "cost_cache \<Rightarrow> string \<Rightarrow> provider \<Rightarrow> string list option \<Rightarrow> string list \<Rightarrow> real option
     \<Rightarrow> real option \<times> cost_cache" where
  "estimate_models cache pid p caps [] min_cost = (min_cost, cache)"
| "estimate_models cache pid p caps (model_id # ms) min_cost =
     (if \<not> meets p caps model_id then estimate_models cache pid p caps ms min_cost
      else case cache (pid, model_id) of
             Some cost \<Rightarrow> estimate_models cache pid p caps ms (min_cost_of min_cost (Some cost))
           | None \<Rightarrow>
               (case estimate_cost p model_id of
                  Some cost \<Rightarrow>
                    estimate_models (cache((pid, model_id) \<mapsto> cost)) pid p caps ms
                      (min_cost_of min_cost (Some cost))
                | None \<Rightarrow> estimate_models cache pid p caps ms (min_cost_of min_cost None)))"

definition estimate_provider_cost ::
  "cost_cache \<Rightarrow> string \<Rightarrow> provider \<Rightarrow> string list option \<Rightarrow> real \<times> cost_cache" where
  "estimate_provider_cost cache pid p caps =
     (case estimate_models cache pid p caps (available_models p) None of
        (None, cache') \<Rightarrow> (1, cache')
      | (Some c, cache') \<Rightarrow> (c, cache'))"

definition exceeds :: "real option \<Rightarrow> real \<Rightarrow> bool" where
  "exceeds mx cost = (case mx of None \<Rightarrow> False | Some m \<Rightarrow> cost > m)"

fun provider_costs ::
  "cost_cache \<Rightarrow> (string \<times> provider) list \<Rightarrow> string list \<Rightarrow> real option
     \<Rightarrow> ((string \<times> provider) \<times> real) list \<times> cost_cache" where
  "provider_costs cache [] required mx = ([], cache)"
| "provider_costs cache ((pid, p) # cs) required mx =
     (case estimate_provider_cost cache pid p (Some required) of
        (cost, cache1) \<Rightarrow>
          (case provider_costs cache1 cs required mx of
             (rest, cache2) \<Rightarrow>
               (if exceeds mx cost then rest else ((pid, p), cost) # rest, cache2)))"

text \<open>\<open>list.sort(key=...)\<close> is stable, as \<open>sort_key\<close> is.\<close>

definition rank_by_cost ::
  "cost_cache \<Rightarrow> (string \<times> provider) list \<Rightarrow> string list \<Rightarrow> real option
     \<Rightarrow> (string \<times> provider) list \<times> cost_cache" where
  "rank_by_cost cache candidates required mx =
     (case provider_costs cache candidates required mx of
        (pcs, cache') \<Rightarrow> (map fst (sort_key snd pcs), cache'))"

text \<open>\<open>requirements.get("capabilities", [])\<close>\<close>

definition required_of :: "requirements \<Rightarrow> string list" where
  "required_of reqs = (case req_capabilities reqs of None \<Rightarrow> [] | Some cs \<Rightarrow> cs)"

definition select_provider ::
  "cost_selector \<Rightarrow> string \<Rightarrow> requirements \<Rightarrow> (py_error + string \<times> provider) \<times> cost_selector" where
  "select_provider sel component_id reqs =
     (let required = required_of reqs;
          candidates = candidate_providers (provider_registry sel) required
      in if candidates = [] then (Inl NoProvider, sel)
         else case rank_by_cost (cost_cache sel) candidates required (max_cost reqs) of
           ([], cache1) \<Rightarrow> (Inl NoAffordable, sel\<lparr>cost_cache := cache1\<rparr>)
         | ((pid, p) # _, cache1) \<Rightarrow>
             (case estimate_provider_cost cache1 pid p (req_capabilities reqs) of
                (estimated_cost, cache2) \<Rightarrow>
                  if \<not> get_allocation (credit_manager sel) component_id \<ge> estimated_cost
                  then (case allocate_credits (credit_manager sel) component_id estimated_cost of
                          (False, cm) \<Rightarrow> (Inl InsufficientCredits, sel\<lparr>cost_cache := cache2\<rparr>)
                        | (True, cm) \<Rightarrow>
                            (Inr (pid, p), sel\<lparr>cost_cache := cache2, credit_manager := cm\<rparr>))
                  else (Inr (pid, p), sel\<lparr>cost_cache := cache2\<rparr>)))"

subsection \<open>Notions used to state the properties of select\_provider\<close>

text \<open>
  The cache holds only estimates of the registered providers: this is so for the empty
  cache of a new selector and stays so, since \<open>_estimate_provider_cost\<close> is the only
  writer of the cache.
\<close>

definition cache_ok :: "registry \<Rightarrow> cost_cache \<Rightarrow> bool" where
  "cache_ok reg cache \<longleftrightarrow>
     (\<forall>pid p model_id c. (pid, p) \<in> set reg \<longrightarrow> cache (pid, model_id) = Some c
        \<longrightarrow> estimate_cost p model_id = Some c)"

text \<open>
  The estimate of a provider without the cache: the least estimate over the models that
  hold every required capability, infinity (\<open>None\<close>) when there is none; the selector
  turns infinity into the default 1.0.
\<close>

fun min_model_cost :: "provider \<Rightarrow> string list option \<Rightarrow> string list \<Rightarrow> real option \<Rightarrow> real option" where
  "min_model_cost p caps [] m = m"
| "min_model_cost p caps (model_id # ms) m =
     (if meets p caps model_id
      then min_model_cost p caps ms (min_cost_of m (estimate_cost p model_id))
      else min_model_cost p caps ms m)"

definition provider_cost :: "provider \<Rightarrow> string list \<Rightarrow> real" where
  "provider_cost p required =
     (case min_model_cost p (Some required) (available_models p) None of None \<Rightarrow> 1 | Some c \<Rightarrow> c)"

definition eligible_costs :: "provider \<Rightarrow> string list \<Rightarrow> real list" where
  "eligible_costs p required =
     List.map_filter (estimate_cost p) (filter (meets p (Some required)) (available_models p))"

definition least_cost :: "real list \<Rightarrow> real option" where
  "least_cost cs = (if cs = [] then None else Some (Min (set cs)))"

text \<open>Auxiliary notions of the proofs.\<close>

definition own_ok :: "cost_cache \<Rightarrow> string \<Rightarrow> provider \<Rightarrow> bool" where
  "own_ok cache pid p \<longleftrightarrow> (\<forall>model_id c. cache (pid, model_id) = Some c \<longrightarrow> estimate_cost p model_id = Some c)"

definition grown :: "cost_cache \<Rightarrow> string \<Rightarrow> provider \<Rightarrow> cost_cache \<Rightarrow> bool" where
  "grown cache pid p cache' \<longleftrightarrow>
     (\<forall>k c. cache' k = Some c \<longrightarrow>
        cache k = Some c \<or> (\<exists>model_id. k = (pid, model_id) \<and> estimate_cost p model_id = Some c))"

definition priced :: "string list \<Rightarrow> real option \<Rightarrow> (string \<times> provider) list \<Rightarrow> ((string \<times> provider) \<times> real) list" where
  "priced required mx cands =
     filter (\<lambda>(_, c). \<not> exceeds mx c) (map (\<lambda>(pid, p). ((pid, p), provider_cost p required)) cands)"

section \<open>Task orchestrator (task\_orchestrator.py)\<close>

text \<open>
  Wall-clock fields (\<open>created_at\<close>, \<open>started_at\<close>, \<open>completed_at\<close>, the time stamps of the
  trace) are not modelled: the orchestrator writes them and never reads them. The input
  payload of a task, an opaque dict, is kept as the string it is rendered to in the prompt.
  The priority enum of this module has the same members as the scheduler's.
\<close>

datatype TaskStatus = PENDING | RUNNING | COMPLETED | FAILED | CANCELLED

datatype ModelRole = ORCHESTRATOR | EXECUTOR | ANALYZER | GENERATOR | VALIDATOR | OPTIMIZER

record trace_entry =
  tr_provider :: string
  tr_model :: string
  tr_success :: bool
  tr_error :: "string option"

record exec_result =
  res_result :: string
  res_model_metadata :: string

record task =
  name :: string
  description :: string
  input_data :: string
  priority :: TaskPriority
  dependencies :: "string list"
  required_capabilities :: "string list"
  max_retries :: int
  status :: TaskStatus
  result :: "exec_result option"
  error :: "string option"
  retry_count :: int
  assigned_provider :: "string option"
  assigned_model :: "string option"
  execution_trace :: "trace_entry list"

text \<open>\<open>Task(...)\<close>: a new task is PENDING with no retries and an empty trace.\<close>

definition Task :: "string \<Rightarrow> string \<Rightarrow> string list \<Rightarrow> int \<Rightarrow> task" where
  "Task nm descr deps retries =
     \<lparr>name = nm, description = descr, input_data = ''{}'', priority = MEDIUM,
      dependencies = deps, required_capabilities = [], max_retries = retries,
      status = PENDING, result = None, error = None, retry_count = 0,
      assigned_provider = None, assigned_model = None, execution_trace = []\<rparr>"

text \<open>
  The orchestrator built with a provider registry: its executor is the
  \<open>ModelTaskExecutor\<close> over that registry and a role manager. \<open>provider_calls\<close> counts the calls of
  \<open>execute_prompt\<close> made so far; it is the argument that lets a provider answer
  differently from one call to the next.
\<close>

record orchestrator =
  registry :: registry
  role_assignments :: "ModelRole \<Rightarrow> (string \<times> string) list"
  tasks :: "string \<rightharpoonup> task"
  workflows :: "string \<rightharpoonup> string list"
  provider_calls :: nat

text \<open>\<open>str(e)\<close>: the message, which for a KeyError is the \<open>repr\<close> of its argument.\<close>

fun str_of :: "py_error \<Rightarrow> string" where
  "str_of (ValueError m) = m"
| "str_of (KeyError m) = [CHR 0x27] @ m @ [CHR 0x27]"
| "str_of (AttributeError m) = m"
| "str_of (ProviderError m) = m"

subsection \<open>ModelRoleManager and ModelTaskExecutor\<close>

definition get_best_model_for_role ::
  "(ModelRole \<Rightarrow> (string \<times> string) list) \<Rightarrow> ModelRole \<Rightarrow> py_error + string \<times> string" where
  "get_best_model_for_role assignments role =
     (case assignments role of
        [] \<Rightarrow> Inl (ValueError ''No models available for role'')
      | candidate # _ \<Rightarrow> Inr candidate)"

definition determine_role_for_task :: "task \<Rightarrow> ModelRole" where
  "determine_role_for_task t =
     (let d = lower (description t)
      in if str_contains ''analyze'' d then ANALYZER
         else if str_contains ''generate'' d then GENERATOR
         else if str_contains ''validate'' d then VALIDATOR
         else if str_contains ''optimize'' d then OPTIMIZER
         else EXECUTOR)"

text \<open>The prompt template, without its layout white space.\<close>

definition prepare_prompt_for_task :: "task \<Rightarrow> string" where
  "prepare_prompt_for_task t =
     ''Task: '' @ name t @ '' Description: '' @ description t @ '' Input Data: '' @ input_data t
       @ '' Please execute this task and provide the result.''"

definition parse_response :: "response \<Rightarrow> exec_result" where
  "parse_response r =
     \<lparr>res_result = (case resp_text r of None \<Rightarrow> [] | Some t \<Rightarrow> t),
      res_model_metadata = (case resp_metadata r of None \<Rightarrow> ''{}'' | Some m \<Rightarrow> m)\<rparr>"

text \<open>
  \<open>ModelTaskExecutor.execute_task\<close>: the result or the exception, the task as the executor
  leaves it (assignment and one more trace record), and the call counter.
\<close>

definition executor_execute_task ::
  "orchestrator \<Rightarrow> task \<Rightarrow> (py_error + exec_result) \<times> task \<times> nat" where
  "executor_execute_task st t =
     (case get_best_model_for_role (role_assignments st) (determine_role_for_task t) of
        Inl e \<Rightarrow> (Inl e, t, provider_calls st)
      | Inr (provider_id, model_id) \<Rightarrow>
          (case get_provider (registry st) provider_id of
             Inl e \<Rightarrow> (Inl e, t, provider_calls st)
           | Inr prov \<Rightarrow>
               (let t1 = t\<lparr>assigned_provider := Some provider_id, assigned_model := Some model_id\<rparr>
                in case execute_prompt prov (provider_calls st) model_id (prepare_prompt_for_task t1) of
                     Inr resp \<Rightarrow>
                       (Inr (parse_response resp),
                        t1\<lparr>execution_trace := execution_trace t1 @
                             [\<lparr>tr_provider = provider_id, tr_model = model_id, tr_success = True,
                               tr_error = None\<rparr>]\<rparr>,
                        Suc (provider_calls st))
                   | Inl msg \<Rightarrow>
                       (Inl (ProviderError msg),
                        t1\<lparr>execution_trace := execution_trace t1 @
                             [\<lparr>tr_provider = provider_id, tr_model = model_id, tr_success = False,
                               tr_error = Some msg\<rparr>]\<rparr>,
                        Suc (provider_calls st)))))"

subsection \<open>TaskOrchestrator\<close>

definition add_task :: "orchestrator \<Rightarrow> string \<Rightarrow> task \<Rightarrow> orchestrator" where
  "add_task st task_id t = st\<lparr>tasks := (tasks st)(task_id \<mapsto> t)\<rparr>"

definition get_task :: "orchestrator \<Rightarrow> string \<Rightarrow> task option" where
  "get_task st task_id = tasks st task_id"

definition create_workflow :: "orchestrator \<Rightarrow> string \<Rightarrow> (string \<times> task) list \<Rightarrow> orchestrator" where
  "create_workflow st workflow_id ts =
     (foldl (\<lambda>s (task_id, t). add_task s task_id t) st ts)
       \<lparr>workflows := (workflows st)(workflow_id \<mapsto> map fst ts)\<rparr>"

text \<open>The first dependency that is missing from the table or not COMPLETED, if any.\<close>

definition dependency_satisfied :: "orchestrator \<Rightarrow> string \<Rightarrow> bool" where
  "dependency_satisfied st dep_id =
     (case get_task st dep_id of None \<Rightarrow> False | Some dep_task \<Rightarrow> status dep_task = COMPLETED)"

definition unsatisfied_dependency :: "orchestrator \<Rightarrow> task \<Rightarrow> string option" where
  "unsatisfied_dependency st t = find (\<lambda>dep_id. \<not> dependency_satisfied st dep_id) (dependencies t)"

text \<open>
  \<open>execute_task\<close>. The retry is the recursive call of the source; it ends because each
  retry has a larger \<open>retry_count\<close> below \<open>max_retries\<close>.
\<close>

function execute_task :: "orchestrator \<Rightarrow> string \<Rightarrow> (py_error + exec_result) \<times> orchestrator" where
  "execute_task st task_id =
     (case get_task st task_id of
        None \<Rightarrow> (Inl (ValueError (''Task not found: '' @ task_id)), st)
      | Some t \<Rightarrow>
          (case unsatisfied_dependency st t of
             Some dep_id \<Rightarrow> (Inl (ValueError (''Dependency not satisfied: '' @ dep_id)), st)
           | None \<Rightarrow>
               (case executor_execute_task st (t\<lparr>status := RUNNING\<rparr>) of
                  (Inr res, t2, n) \<Rightarrow>
                    (Inr res,
                     st\<lparr>tasks := (tasks st)(task_id \<mapsto> t2\<lparr>status := COMPLETED, result := Some res\<rparr>),
                        provider_calls := n\<rparr>)
                | (Inl e, t2, n) \<Rightarrow>
                    (if retry_count t2 + 1 < max_retries t2
                     then execute_task
                            (st\<lparr>tasks := (tasks st)
                                  (task_id \<mapsto> t2\<lparr>retry_count := retry_count t2 + 1,
                                                   error := Some (str_of e)\<rparr>),
                                provider_calls := n\<rparr>)
                            task_id
                     else (Inl e,
                           st\<lparr>tasks := (tasks st)
                                 (task_id \<mapsto> t2\<lparr>retry_count := retry_count t2 + 1,
                                                  error := Some (str_of e), status := FAILED\<rparr>),
                              provider_calls := n\<rparr>)))))"
  by pat_completeness auto
termination
proof (relation "measure (\<lambda>(st, task_id).
          case tasks st task_id of None \<Rightarrow> 0 | Some t \<Rightarrow> nat (max_retries t - retry_count t))")
  show "wf (measure (\<lambda>(st, task_id).
          case tasks st task_id of None \<Rightarrow> 0 | Some t \<Rightarrow> nat (max_retries t - retry_count t)))"
    by simp
next
  fix st :: orchestrator and task_id t x2 e t2 n y
  assume known: "get_task st task_id = Some t"
    and ran: "(x2, y) = executor_execute_task st (t\<lparr>status := RUNNING\<rparr>)" "(t2, n) = y" "x2 = Inl e"
    and again: "retry_count t2 + 1 < max_retries t2"
  from ran have "retry_count t2 = retry_count t \<and> max_retries t2 = max_retries t"
    by (auto simp: executor_execute_task_def Let_def split: sum.splits prod.splits)
  with known again
  show "((st\<lparr>tasks := (tasks st)
               (task_id \<mapsto> t2\<lparr>retry_count := retry_count t2 + 1, error := Some (str_of e)\<rparr>),
             provider_calls := n\<rparr>, task_id), st, task_id)
        \<in> measure (\<lambda>(st, task_id).
             case tasks st task_id of None \<Rightarrow> 0 | Some t \<Rightarrow> nat (max_retries t - retry_count t))"
    by (simp add: get_task_def)
qed

declare execute_task.simps [simp del]

definition is_active :: "TaskStatus \<Rightarrow> bool" where
  "is_active s = (s = PENDING \<or> s = RUNNING)"

definition cancel_task :: "orchestrator \<Rightarrow> string \<Rightarrow> bool \<times> orchestrator" where
  "cancel_task st task_id =
     (case get_task st task_id of
        None \<Rightarrow> (False, st)
      | Some t \<Rightarrow>
          if is_active (status t)
          then (True, st\<lparr>tasks := (tasks st)(task_id \<mapsto> t\<lparr>status := CANCELLED\<rparr>)\<rparr>)
          else (False, st))"

fun cancel_all :: "orchestrator \<Rightarrow> string list \<Rightarrow> string list \<Rightarrow> string list \<times> orchestrator" where
  "cancel_all st [] cancelled_tasks = (cancelled_tasks, st)"
| "cancel_all st (task_id # ids) cancelled_tasks =
     (case cancel_task st task_id of
        (True, st') \<Rightarrow> cancel_all st' ids (cancelled_tasks @ [task_id])
      | (False, st') \<Rightarrow> cancel_all st' ids cancelled_tasks)"

definition cancel_workflow :: "orchestrator \<Rightarrow> string \<Rightarrow> (py_error + string list) \<times> orchestrator" where
  "cancel_workflow st workflow_id =
     (case workflows st workflow_id of
        None \<Rightarrow> (Inl (ValueError (''Workflow not found: '' @ workflow_id)), st)
      | Some task_ids \<Rightarrow>
          if task_ids = [] then (Inl (ValueError (''Workflow not found: '' @ workflow_id)), st)
          else (case cancel_all st task_ids [] of (cancelled, st') \<Rightarrow> (Inr cancelled, st')))"

subsection \<open>Notions used to state the properties of execute\_task\<close>

text \<open>
  The executor reaches the provider: the role of the task has a model assigned and the
  provider of that model is registered.
\<close>

definition executor_ready :: "orchestrator \<Rightarrow> task \<Rightarrow> string \<Rightarrow> string \<Rightarrow> provider \<Rightarrow> bool" where
  "executor_ready st t pid mid prov \<longleftrightarrow>
     get_best_model_for_role (role_assignments st) (determine_role_for_task t) = Inr (pid, mid)
     \<and> get_provider (registry st) pid = Inr prov"

text \<open>The task after one failed attempt, and after the successful one.\<close>

definition failed_attempt :: "task \<Rightarrow> string \<Rightarrow> string \<Rightarrow> string \<Rightarrow> task" where
  "failed_attempt t pid mid msg =
     t\<lparr>status := RUNNING, assigned_provider := Some pid, assigned_model := Some mid,
       execution_trace := execution_trace t @
         [\<lparr>tr_provider = pid, tr_model = mid, tr_success = False, tr_error = Some msg\<rparr>],
       retry_count := retry_count t + 1, error := Some msg\<rparr>"

definition succeeded_attempt :: "task \<Rightarrow> string \<Rightarrow> string \<Rightarrow> exec_result \<Rightarrow> task" where
  "succeeded_attempt t pid mid res =
     t\<lparr>assigned_provider := Some pid, assigned_model := Some mid,
       execution_trace := execution_trace t @
         [\<lparr>tr_provider = pid, tr_model = mid, tr_success = True, tr_error = None\<rparr>],
       status := COMPLETED, result := Some res\<rparr>"

text \<open>The number of attempts \<open>execute_task\<close> makes on a task when every attempt fails.\<close>

definition attempts_left :: "task \<Rightarrow> nat" where
  "attempts_left t = nat (max 1 (max_retries t - retry_count t))"

definition is_terminal :: "TaskStatus \<Rightarrow> bool" where
  "is_terminal s = (s = COMPLETED \<or> s = FAILED \<or> s = CANCELLED)"

subsection \<open>execute\_workflow\<close>

text \<open>
  The dependency graph is a dict keyed by task id, so a task id listed twice in the
  workflow has one node: \<open>dict_keys\<close> keeps the first occurrence of each id, in order.
  Building a node reads \<open>task.dependencies\<close> of \<open>get_task(task_id)\<close>, an AttributeError
  when the id is not in the task table. The dependents of a node are collected in the
  order of the keys, once for each time the node is listed among a task's dependencies.
\<close>

definition dict_keys :: "string list \<Rightarrow> string list" where
  "dict_keys ids = rev (remdups (rev ids))"

record dep_graph =
  g_keys :: "string list"
  g_dependencies :: "string \<Rightarrow> string list"
  g_dependents :: "string \<Rightarrow> string list"

definition task_dependencies :: "orchestrator \<Rightarrow> string \<Rightarrow> string list" where
  "task_dependencies st task_id =
     (case get_task st task_id of None \<Rightarrow> [] | Some t \<Rightarrow> dependencies t)"

definition graph_of :: "orchestrator \<Rightarrow> string list \<Rightarrow> dep_graph" where
  "graph_of st task_ids =
     \<lparr>g_keys = dict_keys task_ids,
      g_dependencies = task_dependencies st,
      g_dependents = (\<lambda>dep_id.
        concat (map (\<lambda>task_id.
            map (\<lambda>_. task_id) (filter (\<lambda>d. d = dep_id) (task_dependencies st task_id)))
          (dict_keys task_ids)))\<rparr>"

definition build_graph :: "orchestrator \<Rightarrow> string list \<Rightarrow> py_error + dep_graph" where
  "build_graph st task_ids =
     (if list_ex (\<lambda>task_id. get_task st task_id = None) task_ids
      then Inl (AttributeError ''NoneType object has no attribute dependencies'')
      else Inr (graph_of st task_ids))"

text \<open>The tasks none of whose dependencies is a node of the graph.\<close>

definition initial_ready :: "dep_graph \<Rightarrow> string list" where
  "initial_ready g =
     filter (\<lambda>task_id. list_all (\<lambda>dep_id. dep_id \<notin> set (g_keys g)) (g_dependencies g task_id))
       (g_keys g)"

text \<open>
  \<open>asyncio.gather\<close> over the ready tasks, with \<open>return_exceptions=True\<close>. The coroutine
  \<open>execute_task\<close> awaits nothing but the executor, and \<open>ModelTaskExecutor.execute_task\<close>
  has no suspension point, so the calls run one after the other, in the order of the list.
\<close>

fun gather :: "orchestrator \<Rightarrow> string list \<Rightarrow> (py_error + exec_result) list \<times> orchestrator" where
  "gather st [] = ([], st)"
| "gather st (task_id # ids) =
     (case execute_task st task_id of
        (r, st1) \<Rightarrow> (case gather st1 ids of (rs, st2) \<Rightarrow> (r # rs, st2)))"

text \<open>An entry of the results dict: \<open>{"error": str(e)}\<close> or the result of the task.\<close>

type_synonym results = "string \<rightharpoonup> string + exec_result"

definition mark_dependent_failed :: "string \<Rightarrow> orchestrator \<Rightarrow> string \<Rightarrow> orchestrator" where
  "mark_dependent_failed task_id st dependent_id =
     (case get_task st dependent_id of
        None \<Rightarrow> st  \<comment> \<open>not reached: a dependent is a node, and nodes are in the table\<close>
      | Some dependent_task \<Rightarrow>
          st\<lparr>tasks := (tasks st)
                (dependent_id \<mapsto> dependent_task\<lparr>status := FAILED,
                    error := Some (''Dependency failed: '' @ task_id)\<rparr>)\<rparr>)"

definition dependencies_in_results :: "dep_graph \<Rightarrow> results \<Rightarrow> orchestrator \<Rightarrow> string \<Rightarrow> bool" where
  "dependencies_in_results g res st dependent_id =
     list_all (\<lambda>dep_id. res dep_id \<noteq> None)
       (filter (\<lambda>dep_id. dep_id \<in> set (g_keys g)) (task_dependencies st dependent_id))"

text \<open>The loop over \<open>zip(current_tasks, task_results)\<close>, on (ready\_tasks, results, state).\<close>

fun process_results ::
  "dep_graph \<Rightarrow> (string \<times> (py_error + exec_result)) list
     \<Rightarrow> string list \<times> results \<times> orchestrator \<Rightarrow> string list \<times> results \<times> orchestrator" where
  "process_results g [] acc = acc"
| "process_results g ((task_id, Inl e) # rest) (ready_tasks, res, st) =
     process_results g rest
       (ready_tasks, res(task_id \<mapsto> Inl (str_of e)),
        foldl (mark_dependent_failed task_id) st (g_dependents g task_id))"
| "process_results g ((task_id, Inr r) # rest) (ready_tasks, res, st) =
     process_results g rest
       (ready_tasks @
          filter (dependencies_in_results g (res(task_id \<mapsto> Inr r)) st) (g_dependents g task_id),
        res(task_id \<mapsto> Inr r), st)"

text \<open>
  The \<open>while ready_tasks\<close> loop. It is defined as a partial function; that it returns
  for every graph built from the task table is proved below.
\<close>

partial_function (option) workflow_loop ::
  "dep_graph \<Rightarrow> string list \<Rightarrow> results \<Rightarrow> orchestrator \<Rightarrow> (results \<times> orchestrator) option" where
  "workflow_loop g ready_tasks res st =
     (if ready_tasks = [] then Some (res, st)
      else case gather st ready_tasks of
             (task_results, st1) \<Rightarrow>
               (case process_results g (zip ready_tasks task_results) ([], res, st1) of
                  (ready', res', st2) \<Rightarrow> workflow_loop g ready' res' st2))"

declare workflow_loop.simps [code]

definition execute_workflow ::
  "orchestrator \<Rightarrow> string \<Rightarrow> ((py_error + results) \<times> orchestrator) option" where
  "execute_workflow st workflow_id =
     (case workflows st workflow_id of
        None \<Rightarrow> Some (Inl (ValueError (''Workflow not found: '' @ workflow_id)), st)
      | Some task_ids \<Rightarrow>
          if task_ids = [] then Some (Inl (ValueError (''Workflow not found: '' @ workflow_id)), st)
          else (case build_graph st task_ids of
                  Inl e \<Rightarrow> Some (Inl e, st)
                | Inr g \<Rightarrow>
                    map_option (\<lambda>(res, st'). (Inr res, st'))
                      (workflow_loop g (initial_ready g) Map.empty st)))"

subsection \<open>Notions used to state and prove the properties of execute\_workflow\<close>

text \<open>
  Two states of the orchestrator have the same shape when they hold the same task ids
  with the same dependency lists; no modelled operation changes the shape.
\<close>

definition same_shape :: "orchestrator \<Rightarrow> orchestrator \<Rightarrow> bool" where
  "same_shape st0 st \<longleftrightarrow>
     (\<forall>k. task_dependencies st k = task_dependencies st0 k
          \<and> (tasks st k = None \<longleftrightarrow> tasks st0 k = None))"

text \<open>The dependencies of a task that are nodes of the graph.\<close>

definition graph_deps :: "dep_graph \<Rightarrow> orchestrator \<Rightarrow> string \<Rightarrow> string set" where
  "graph_deps g st d = {x \<in> set (task_dependencies st d). x \<in> set (g_keys g)}"

text \<open>
  The invariant of the loop: ready tasks are nodes without an entry in the results, and
  every task that is ready or has an entry has all its graph dependencies in the results.
\<close>

definition workflow_inv ::
  "dep_graph \<Rightarrow> orchestrator \<Rightarrow> string list \<Rightarrow> results \<Rightarrow> orchestrator \<Rightarrow> bool" where
  "workflow_inv g st0 ready res st \<longleftrightarrow>
     set ready \<subseteq> set (g_keys g) \<and> set ready \<inter> dom res = {} \<and> dom res \<subseteq> set (g_keys g)
     \<and> (\<forall>t \<in> set ready \<union> dom res. graph_deps g st0 t \<subseteq> dom res)
     \<and> same_shape st0 st"

text \<open>
  The notions of the property of the dependents of a failed task. \<open>mark_failed b\<close> is the
  update that the failure branch applies to a dependent of \<open>b\<close>; a task is untouched when
  all its fields but status and error are as at the start of the run; \<open>failed_in\<close> says
  that the results entry of a task is an error; a task is poisoned when one of its graph
  dependencies failed, and marked when it is FAILED with the error naming such a dependency.
\<close>

definition mark_failed :: "string \<Rightarrow> task \<Rightarrow> task" where
  "mark_failed b t = t\<lparr>status := FAILED, error := Some (''Dependency failed: '' @ b)\<rparr>"

definition untouched :: "orchestrator \<Rightarrow> orchestrator \<Rightarrow> string \<Rightarrow> bool" where
  "untouched st0 st k \<longleftrightarrow>
     (\<exists>t0 t. tasks st0 k = Some t0 \<and> tasks st k = Some t
        \<and> t = t0\<lparr>status := status t, error := error t\<rparr>)"

definition failed_in :: "results \<Rightarrow> string \<Rightarrow> bool" where
  "failed_in res a = (case res a of Some (Inl e) \<Rightarrow> True | _ \<Rightarrow> False)"

definition poisoned :: "dep_graph \<Rightarrow> orchestrator \<Rightarrow> results \<Rightarrow> string \<Rightarrow> bool" where
  "poisoned g st0 res d \<longleftrightarrow> (\<exists>a \<in> graph_deps g st0 d. failed_in res a)"

definition marked :: "dep_graph \<Rightarrow> orchestrator \<Rightarrow> results \<Rightarrow> orchestrator \<Rightarrow> string \<Rightarrow> bool" where
  "marked g st0 res st d \<longleftrightarrow>
     (\<exists>t x. tasks st d = Some t \<and> status t = FAILED
        \<and> error t = Some (''Dependency failed: '' @ x)
        \<and> x \<in> graph_deps g st0 d \<and> failed_in res x)"

text \<open>
  The invariant of the loop for a set \<open>E\<close> of tasks that may have been executed: a failed
  task is not COMPLETED, a node outside \<open>E\<close> is untouched and not COMPLETED, and a poisoned
  node is marked and untouched.
\<close>

definition poison_inv ::
  "dep_graph \<Rightarrow> orchestrator \<Rightarrow> string set \<Rightarrow> results \<Rightarrow> orchestrator \<Rightarrow> bool" where
  "poison_inv g st0 E res st \<longleftrightarrow>
     (\<forall>a. failed_in res a \<longrightarrow> \<not> dependency_satisfied st a)
     \<and> (\<forall>x \<in> set (g_keys g). x \<notin> E \<longrightarrow> \<not> dependency_satisfied st x \<and> untouched st0 st x)
     \<and> (\<forall>d \<in> set (g_keys g). poisoned g st0 res d \<longrightarrow> marked g st0 res st d \<and> untouched st0 st d)"

text \<open>A task none of whose dependencies belongs to the workflow.\<close>

definition no_dependency_in :: "orchestrator \<Rightarrow> string list \<Rightarrow> string \<Rightarrow> bool" where
  "no_dependency_in st ids task_id \<longleftrightarrow> set (task_dependencies st task_id) \<inter> set ids = {}"

text \<open>
  A rank of the tasks of a workflow: every task ranks above those of its dependencies that
  belong to the workflow. A workflow has a rank exactly when its dependencies have no
  cycle; when it lists every task after its dependencies, the position in the list is one.
\<close>

definition ranked :: "orchestrator \<Rightarrow> string list \<Rightarrow> (string \<Rightarrow> nat) \<Rightarrow> bool" where
  "ranked st ids rank \<longleftrightarrow>
     (\<forall>d \<in> set ids. \<forall>a \<in> set (task_dependencies st d). a \<in> set ids \<longrightarrow> rank a < rank d)"

definition position_in :: "string list \<Rightarrow> string \<Rightarrow> nat" where
  "position_in ids k = length (takeWhile (\<lambda>x. x \<noteq> k) ids)"

text \<open>
  The invariant of the loop for the tasks that are made ready: a node all of whose graph
  dependencies have an entry that is not an error is ready or has an entry itself.
\<close>

definition promoted_inv :: "dep_graph \<Rightarrow> orchestrator \<Rightarrow> string list \<Rightarrow> results \<Rightarrow> bool" where
  "promoted_inv g st0 ready res \<longleftrightarrow>
     (\<forall>d \<in> set (g_keys g).
        graph_deps g st0 d \<subseteq> dom res \<and> (\<forall>a \<in> graph_deps g st0 d. \<not> failed_in res a)
        \<longrightarrow> d \<in> dom res \<union> set ready)"

section \<open>Example states\<close>

definition example_sleep_task :: "TaskPriority \<Rightarrow> string list \<Rightarrow> sleep_task" where
  "example_sleep_task p deps =
     \<lparr>st_name = ''job'', st_description = [], st_priority = p, estimated_duration = 60,
      estimated_resources = [], st_dependencies = deps, scheduled_at = None,
      started_at = None, completed_at = None, st_status = pending, st_result = None,
      st_error = None\<rparr>"

definition default_monitor :: resource_monitor where
  "default_monitor =
     \<lparr>resource_usage = (\<lambda>_. 0),
      resource_limits = (\<lambda>r. if r = ''cpu'' then Some 100 else if r = ''memory'' then Some 1000
                             else None)\<rparr>"

text \<open>A scheduler after \<open>add_task\<close> of one task \<open>T\<close> of the given priority and dependencies.\<close>

definition one_task_scheduler :: "TaskPriority \<Rightarrow> string list \<Rightarrow> task_scheduler" where
  "one_task_scheduler p deps =
     \<lparr>monitor = default_monitor,
      task_queue = [(- priority_value p, ''T'')],
      sleep_tasks = [''T'' \<mapsto> example_sleep_task p deps],
      scheduled_tasks = {}, completed_tasks = {}, failed_tasks = {}\<rparr>"

text \<open>
  A provider with one model \<open>m1\<close> of capability \<open>X\<close> and the given cost, whose
  \<open>execute_prompt\<close> raises on the calls numbered in \<open>failing\<close> and answers on the others.
\<close>

definition scripted_provider :: "real \<Rightarrow> nat list \<Rightarrow> provider" where
  "scripted_provider cost failing =
     \<lparr>available_models = [''m1''],
      model_capabilities = (\<lambda>m. if m = ''m1'' then [''X''] else []),
      estimate_cost = (\<lambda>m. Some cost),
      execute_prompt = (\<lambda>n m prompt.
        if n \<in> set failing then Inl ''provider error''
        else Inr \<lparr>resp_text = Some ''done'', resp_metadata = None\<rparr>)\<rparr>"

text \<open>
  An orchestrator over the single provider \<open>P1\<close>, to which every role is assigned, with
  the given tasks and one workflow \<open>W\<close> of all of them.
\<close>

definition example_orchestrator :: "nat list \<Rightarrow> (string \<times> task) list \<Rightarrow> orchestrator" where
  "example_orchestrator failing ts =
     create_workflow
       \<lparr>registry = [(''P1'', scripted_provider 1 failing)],
        role_assignments = (\<lambda>role. [(''P1'', ''m1'')]),
        tasks = Map.empty, workflows = Map.empty, provider_calls = 0\<rparr>
       ''W'' ts"

text \<open>
  Two workflows of tasks A, B, C with \<open>max_retries = 0\<close>, over a provider whose first
  call fails, so that A fails: in \<open>fan_out\<close> B and C depend on A, in \<open>chain\<close> B depends
  on A and C on B.
\<close>

definition fan_out :: orchestrator where
  "fan_out = example_orchestrator [0]
     [(''A'', Task ''a'' [] [] 0), (''B'', Task ''b'' [] [''A''] 0), (''C'', Task ''c'' [] [''A''] 0)]"

definition chain :: orchestrator where
  "chain = example_orchestrator [0]
     [(''A'', Task ''a'' [] [] 0), (''B'', Task ''b'' [] [''A''] 0), (''C'', Task ''c'' [] [''B''] 0)]"

text \<open>The same chain over a provider that answers every call.\<close>

definition working_chain :: orchestrator where
  "working_chain = example_orchestrator []
     [(''A'', Task ''a'' [] [] 0), (''B'', Task ''b'' [] [''A''] 0), (''C'', Task ''c'' [] [''B''] 0)]"

text \<open>
  What a run of \<open>execute_workflow\<close> left for the given task ids: the results entry (the
  error string or the result text) and the status, error and trace length of the task.
\<close>

definition summary :: "(py_error + results) \<times> orchestrator \<Rightarrow> string list
    \<Rightarrow> (string \<times> (string + string) option \<times> (TaskStatus \<times> string option \<times> nat) option) list" where
  "summary r ids =
     map (\<lambda>k. (k,
            (case fst r of Inl e \<Rightarrow> None | Inr res \<Rightarrow> map_option (map_sum id res_result) (res k)),
            map_option (\<lambda>t. (status t, error t, length (execution_trace t))) (tasks (snd r) k)))
       ids"

text \<open>A provider with two models, \<open>m1\<close> of capability \<open>X\<close> only and \<open>m2\<close> of \<open>Y\<close> only.\<close>

definition split_provider :: provider where
  "split_provider =
     \<lparr>available_models = [''m1'', ''m2''],
      model_capabilities = (\<lambda>m. if m = ''m1'' then [''X''] else if m = ''m2'' then [''Y''] else []),
      estimate_cost = (\<lambda>m. Some (1 / 2)),
      execute_prompt = (\<lambda>n m prompt. Inr \<lparr>resp_text = Some ''done'', resp_metadata = None\<rparr>)\<rparr>"

text \<open>
  The two providers of the selection scenario: P1 at cost 0.5 and P2 at cost 1.0, both
  with capability X.
\<close>

definition two_providers :: registry where
  "two_providers = [(''P1'', scripted_provider (1 / 2) []), (''P2'', scripted_provider 1 [])]"

definition example_selector :: "registry \<Rightarrow> cost_selector" where
  "example_selector reg =
     \<lparr>provider_registry = reg, credit_manager = CreditManager 0 None, cost_cache = Map.empty\<rparr>"

section \<open>Credit manager: proofs\<close>

lemma get_allocation_upd:
  "get_allocation (cm\<lparr>allocations := (allocations cm)(c \<mapsto> v)\<rparr>) c' =
     (if c' = c then v else get_allocation cm c')"
  by (simp add: get_allocation_def)

lemma allocate_credits_nonneg:
  assumes "0 \<le> a" and "\<forall>c'. 0 \<le> get_allocation cm c'"
  shows "0 \<le> get_allocation (snd (allocate_credits cm c a)) c'"
  using assms by (simp add: allocate_credits_def get_allocation_def)

lemma use_credits_nonneg:
  assumes "\<forall>c'. 0 \<le> get_allocation cm c'"
  shows "0 \<le> get_allocation (snd (use_credits cm c a)) c'"
  using assms by (simp add: use_credits_def Let_def get_allocation_def)

lemma run_calls_nonneg:
  assumes "allocate_amounts_nonneg calls" and "\<forall>c. 0 \<le> get_allocation cm c"
  shows "0 \<le> get_allocation (run_calls cm calls) c"
  using assms unfolding run_calls_def
proof (induction calls arbitrary: cm c)
  case Nil
  then show ?case by simp
next
  case (Cons x xs)
  show ?case
  proof (cases x)
    case (Allocate c' a)
    with Cons.prems have "0 \<le> a" and rest: "allocate_amounts_nonneg xs" by simp_all
    then have "\<forall>d. 0 \<le> get_allocation (snd (allocate_credits cm c' a)) d"
      using Cons.prems(2) allocate_credits_nonneg by blast
    with Cons.IH [OF rest] Allocate show ?thesis by simp
  next
    case (Use c' a)
    with Cons.prems have rest: "allocate_amounts_nonneg xs" by simp
    have "\<forall>d. 0 \<le> get_allocation (snd (use_credits cm c' a)) d"
      using Cons.prems(2) use_credits_nonneg by blast
    with Cons.IH [OF rest] Use show ?thesis by simp
  qed
qed

lemma allocate_amounts_nonneg_take:
  "allocate_amounts_nonneg calls \<Longrightarrow> allocate_amounts_nonneg (take n calls)"
proof (induction calls arbitrary: n)
  case Nil
  then show ?case by simp
next
  case (Cons x xs)
  then show ?case by (cases n; cases x) simp_all
qed

lemma budget_limit_credit_step: "budget_limit (credit_step cm x) = budget_limit cm"
  by (cases x) (simp_all add: allocate_credits_def use_credits_def Let_def)

lemma budget_limit_run_calls: "budget_limit (run_calls cm calls) = budget_limit cm"
  unfolding run_calls_def
  by (induction calls arbitrary: cm) (simp_all add: budget_limit_credit_step)

lemma balance_use_credits: "balance (snd (use_credits cm c a)) = balance cm"
  by (simp add: use_credits_def Let_def)

lemma balance_allocate_credits:
  "0 \<le> a \<Longrightarrow> balance cm \<le> balance (snd (allocate_credits cm c a))"
  by (simp add: allocate_credits_def)

lemma balance_run_calls:
  "allocate_amounts_nonneg calls \<Longrightarrow> balance cm \<le> balance (run_calls cm calls)"
  unfolding run_calls_def
proof (induction calls arbitrary: cm)
  case Nil
  then show ?case by simp
next
  case (Cons x xs)
  show ?case
  proof (cases x)
    case (Allocate c a)
    with Cons.prems have "0 \<le> a" and rest: "allocate_amounts_nonneg xs" by simp_all
    have "balance cm \<le> balance (snd (allocate_credits cm c a))"
      using \<open>0 \<le> a\<close> by (rule balance_allocate_credits)
    also have "\<dots> \<le> balance (foldl credit_step (snd (allocate_credits cm c a)) xs)"
      using rest by (rule Cons.IH)
    finally show ?thesis using Allocate by simp
  next
    case (Use c a)
    with Cons.prems have rest: "allocate_amounts_nonneg xs" by simp
    have "balance cm = balance (snd (use_credits cm c a))"
      by (simp add: balance_use_credits)
    also have "\<dots> \<le> balance (foldl credit_step (snd (use_credits cm c a)) xs)"
      using rest by (rule Cons.IH)
    finally show ?thesis using Use by simp
  qed
qed

subsection \<open>C4: allocate\_credits\<close>



subsection \<open>C9: allocations stay non-negative\<close>




subsection \<open>C10: the balance under allocate and use\<close>




section \<open>Cost-aware selector: proofs\<close>

lemma min_cost_of_None [simp]: "min_cost_of m None = m"
  by (cases m) simp_all

lemma estimate_models_pure:
  "own_ok cache pid p \<Longrightarrow>
     fst (estimate_models cache pid p caps ms m) = min_model_cost p caps ms m
     \<and> grown cache pid p (snd (estimate_models cache pid p caps ms m))"
proof (induction ms arbitrary: cache m)
  case Nil
  then show ?case by (simp add: grown_def)
next
  case (Cons model_id ms)
  show ?case
  proof (cases "meets p caps model_id")
    case False
    with Cons show ?thesis by simp
  next
    case True
    show ?thesis
    proof (cases "cache (pid, model_id)")
      case (Some c)
      with Cons.prems have "estimate_cost p model_id = Some c" by (simp add: own_ok_def)
      with Some True Cons.IH [OF Cons.prems] show ?thesis by simp
    next
      case None
      show ?thesis
      proof (cases "estimate_cost p model_id")
        case no: None
        with None True Cons.IH [OF Cons.prems] show ?thesis by simp
      next
        case (Some c)
        let ?cache = "cache((pid, model_id) \<mapsto> c)"
        have ok: "own_ok ?cache pid p" using Cons.prems Some by (auto simp: own_ok_def)
        have weaker: "grown cache pid p cache'" if "grown ?cache pid p cache'" for cache'
          using that Some unfolding grown_def by (metis fun_upd_apply option.inject)
        from Cons.IH [OF ok, of "min_cost_of m (Some c)"]
        have A: "fst (estimate_models ?cache pid p caps ms (min_cost_of m (Some c)))
                 = min_model_cost p caps ms (min_cost_of m (Some c))"
          and B: "grown ?cache pid p (snd (estimate_models ?cache pid p caps ms (min_cost_of m (Some c))))"
          by blast+
        from A weaker [OF B] show ?thesis
          using None Some True by simp
      qed
    qed
  qed
qed

lemma own_ok_of_cache_ok: "cache_ok reg cache \<Longrightarrow> (pid, p) \<in> set reg \<Longrightarrow> own_ok cache pid p"
  by (auto simp: cache_ok_def own_ok_def)

lemma cache_ok_grown:
  assumes "cache_ok reg cache" "grown cache pid p cache'" "(pid, p) \<in> set reg" "distinct (map fst reg)"
  shows "cache_ok reg cache'"
  unfolding cache_ok_def
proof (intro allI impI)
  fix q pq model_id c
  assume q: "(q, pq) \<in> set reg" and c: "cache' (q, model_id) = Some c"
  from assms(2) c consider "cache (q, model_id) = Some c"
    | "q = pid" "estimate_cost p model_id = Some c"
    unfolding grown_def by blast
  then show "estimate_cost pq model_id = Some c"
  proof cases
    case 1
    with assms(1) q show ?thesis by (auto simp: cache_ok_def)
  next
    case 2
    from q assms(3,4) \<open>q = pid\<close> have "pq = p"
      by (metis map_of_eq_Some_iff option.inject)
    with 2 show ?thesis by simp
  qed
qed

lemma estimate_provider_cost_pure:
  assumes "cache_ok reg cache" "(pid, p) \<in> set reg" "distinct (map fst reg)"
  shows "fst (estimate_provider_cost cache pid p (Some required)) = provider_cost p required"
    and "cache_ok reg (snd (estimate_provider_cost cache pid p caps))"
proof -
  have ok: "own_ok cache pid p" using assms(1,2) by (rule own_ok_of_cache_ok)
  from estimate_models_pure [OF ok, of "Some required" "available_models p" None]
  show "fst (estimate_provider_cost cache pid p (Some required)) = provider_cost p required"
    by (auto simp: estimate_provider_cost_def provider_cost_def split: prod.splits option.splits)
  from estimate_models_pure [OF ok, of caps "available_models p" None]
  have "grown cache pid p (snd (estimate_models cache pid p caps (available_models p) None))" by simp
  from cache_ok_grown [OF assms(1) this assms(2,3)]
  show "cache_ok reg (snd (estimate_provider_cost cache pid p caps))"
    by (auto simp: estimate_provider_cost_def split: prod.splits option.splits)
qed

lemma meets_None: "meets p None = meets p (Some [])"
  by (simp add: meets_def fun_eq_iff)

lemma min_model_cost_None: "min_model_cost p None ms m = min_model_cost p (Some []) ms m"
  by (induction ms arbitrary: m) (simp_all add: meets_None)

lemma estimate_provider_cost_reqs:
  assumes "cache_ok reg cache" "(pid, p) \<in> set reg" "distinct (map fst reg)"
  shows "fst (estimate_provider_cost cache pid p caps)
       = provider_cost p (case caps of None \<Rightarrow> [] | Some cs \<Rightarrow> cs)"
proof (cases caps)
  case None
  have ok: "own_ok cache pid p" using assms(1,2) by (rule own_ok_of_cache_ok)
  from estimate_models_pure [OF ok, of None "available_models p" None] None
  show ?thesis
    by (auto simp: estimate_provider_cost_def provider_cost_def min_model_cost_None
        split: prod.splits option.splits)
next
  case (Some cs)
  with estimate_provider_cost_pure(1) [OF assms] show ?thesis by simp
qed

lemma provider_costs_pure:
  assumes "cache_ok reg cache" "set cands \<subseteq> set reg" "distinct (map fst reg)"
  shows "fst (provider_costs cache cands required mx) = priced required mx cands
       \<and> cache_ok reg (snd (provider_costs cache cands required mx))"
  using assms
proof (induction cands arbitrary: cache)
  case Nil
  then show ?case by (simp add: priced_def)
next
  case (Cons a cands)
  obtain pid p where a: "a = (pid, p)" by (cases a)
  with Cons.prems have mem: "(pid, p) \<in> set reg" and sub: "set cands \<subseteq> set reg" by auto
  obtain cost cache1 where e: "estimate_provider_cost cache pid p (Some required) = (cost, cache1)"
    by (cases "estimate_provider_cost cache pid p (Some required)")
  from estimate_provider_cost_pure(1) [OF Cons.prems(1) mem Cons.prems(3), of required]
    estimate_provider_cost_pure(2) [OF Cons.prems(1) mem Cons.prems(3), of "Some required"] e
  have cost: "cost = provider_cost p required" and ok1: "cache_ok reg cache1" by simp_all
  from Cons.IH [OF ok1 sub Cons.prems(3)] a e cost
  show ?case by (auto simp: priced_def split: prod.splits)
qed

lemma sort_key_hd_least:
  assumes "sort_key f xs = y # ys" "x \<in> set xs"
  shows "f y \<le> f x"
proof -
  have "sorted (map f (sort_key f xs))" by (rule sorted_sort_key)
  with assms(1) have "\<forall>z \<in> set ys. f y \<le> f z" by simp
  moreover have "x \<in> set (y # ys)" using assms by (metis set_sort)
  ultimately show ?thesis by auto
qed

lemma sort_key_hd_mem:
  assumes "sort_key f xs = y # ys"
  shows "y \<in> set xs"
  by (metis assms list.set_intros(1) set_sort)

lemma rank_by_cost_pure:
  assumes "cache_ok reg cache" "set cands \<subseteq> set reg" "distinct (map fst reg)"
  shows "fst (rank_by_cost cache cands required mx) = map fst (sort_key snd (priced required mx cands))"
    and "cache_ok reg (snd (rank_by_cost cache cands required mx))"
  using provider_costs_pure [OF assms, of required mx]
  by (auto simp: rank_by_cost_def split: prod.splits)

lemma priced_mem:
  "((pid, p), c) \<in> set (priced required mx cands) \<longleftrightarrow>
     (pid, p) \<in> set cands \<and> c = provider_cost p required \<and> \<not> exceeds mx c"
  by (auto simp: priced_def)

lemma priced_empty:
  "priced required mx cands = [] \<longleftrightarrow>
     (\<forall>(pid, p) \<in> set cands. exceeds mx (provider_cost p required))"
  by (auto simp: priced_def filter_empty_conv)

lemma candidates_subset: "set (candidate_providers reg required) \<subseteq> set reg"
  by (auto simp: candidate_providers_def)

lemma select_provider_cases:
  fixes sel :: cost_selector and reqs :: requirements
  assumes d: "distinct (map fst (provider_registry sel))"
    and ok: "cache_ok (provider_registry sel) (cost_cache sel)"
  defines "required \<equiv> required_of reqs"
  defines "cands \<equiv> candidate_providers (provider_registry sel) required"
  shows "fst (select_provider sel component_id reqs) =
     (if cands = [] then Inl NoProvider
      else case map fst (sort_key snd (priced required (max_cost reqs) cands)) of
        [] \<Rightarrow> Inl NoAffordable
      | (pid, p) # _ \<Rightarrow>
          if get_allocation (credit_manager sel) component_id \<ge> provider_cost p required
             \<or> fst (allocate_credits (credit_manager sel) component_id (provider_cost p required))
          then Inr (pid, p) else Inl InsufficientCredits)"
proof (cases "cands = []")
  case True
  then show ?thesis
    unfolding cands_def required_def by (simp add: select_provider_def Let_def)
next
  case False
  let ?reg = "provider_registry sel"
  have sub: "set cands \<subseteq> set ?reg" unfolding cands_def by (rule candidates_subset)
  note rk = rank_by_cost_pure [OF ok sub d, of required "max_cost reqs"]
  obtain ranked cache1 where r: "rank_by_cost (cost_cache sel) cands required (max_cost reqs) = (ranked, cache1)"
    by (cases "rank_by_cost (cost_cache sel) cands required (max_cost reqs)")
  with rk have ranked: "ranked = map fst (sort_key snd (priced required (max_cost reqs) cands))"
    and ok1: "cache_ok ?reg cache1" by simp_all
  show ?thesis
  proof (cases ranked)
    case Nil
    with False r ranked show ?thesis
      unfolding cands_def required_def by (simp add: select_provider_def Let_def)
  next
    case (Cons a rest)
    obtain pid p where a: "a = (pid, p)" by (cases a)
    have "(pid, p) \<in> set ranked" using Cons a by simp
    then have "(pid, p) \<in> set cands" unfolding ranked by (auto simp: priced_def)
    with sub have mem: "(pid, p) \<in> set ?reg" by blast
    obtain est cache2 where e: "estimate_provider_cost cache1 pid p (req_capabilities reqs) = (est, cache2)"
      by (cases "estimate_provider_cost cache1 pid p (req_capabilities reqs)")
    from estimate_provider_cost_reqs [OF ok1 mem d, of "req_capabilities reqs"] e
    have est: "est = provider_cost p required" unfolding required_def required_of_def by simp
    from False r Cons a e est ranked [symmetric] show ?thesis
      unfolding cands_def required_def
      by (auto simp: select_provider_def Let_def split: prod.splits bool.splits)
  qed
qed

lemma min_cost_of_assoc: "min_cost_of (min_cost_of a b) c = min_cost_of a (min_cost_of b c)"
  by (cases a; cases b; cases c) (simp_all add: min.assoc)

lemma least_cost_Cons: "least_cost (c # cs) = min_cost_of (Some c) (least_cost cs)"
  by (simp add: least_cost_def)

lemma min_model_cost_least:
  "min_model_cost p caps ms m =
     min_cost_of m (least_cost (List.map_filter (estimate_cost p) (filter (meets p caps) ms)))"
proof (induction ms arbitrary: m)
  case Nil
  then show ?case by (simp add: least_cost_def map_filter_simps)
next
  case (Cons model_id ms)
  show ?case
  proof (cases "meets p caps model_id")
    case False
    with Cons show ?thesis by simp
  next
    case True
    show ?thesis
    proof (cases "estimate_cost p model_id")
      case None
      with True Cons show ?thesis by (simp add: map_filter_simps)
    next
      case (Some c)
      with True Cons show ?thesis
        by (simp add: map_filter_simps least_cost_Cons min_cost_of_assoc)
    qed
  qed
qed

lemma provider_cost_least:
  "provider_cost p required =
     (if eligible_costs p required = [] then 1 else Min (set (eligible_costs p required)))"
  by (simp add: provider_cost_def min_model_cost_least eligible_costs_def least_cost_def)

lemma candidate_iff:
  "(pid, p) \<in> set (candidate_providers reg required) \<longleftrightarrow>
     (pid, p) \<in> set reg
     \<and> (\<forall>cap \<in> set required. \<exists>m \<in> set (available_models p). cap \<in> set (model_capabilities p m))"
  by (auto simp: candidate_providers_def has_all_capabilities_def has_capability_def
      list_all_iff list_ex_iff)

lemma error_names_distinct:
  "NoProvider \<noteq> NoAffordable" "NoProvider \<noteq> InsufficientCredits" "NoAffordable \<noteq> InsufficientCredits"
  by (simp_all add: NoProvider_def NoAffordable_def InsufficientCredits_def)

subsection \<open>C5: select\_provider\<close>




section \<open>Sleep-time scheduler: proofs\<close>

lemma insort_least: "sorted (e # q) \<Longrightarrow> insort e q = e # q"
  by (cases q) auto

subsection \<open>C3: get\_next\_task need not return\<close>

text \<open>
  C3 says that \<open>get_next_task\<close> returns on every scheduler state. The source pops a
  dependency-blocked head and pushes it again under the key \<open>(-priority, task_id)\<close>; when
  that is the key it already had, the entry is the smallest again, the scheduler is in the
  state it started from and the loop goes on for ever. So: whenever the head of the queue
  is a known task that is neither scheduled nor completed, has an unmet dependency and is
  queued under the key of its current priority, the call does not return.
\<close>

theorem get_next_task_blocked_head_diverges:
  assumes q: "task_queue s = (score, tid) # rest" and srt: "sorted (task_queue s)"
    and t: "sleep_tasks s tid = Some task"
    and ns: "tid \<notin> scheduled_tasks s" "tid \<notin> completed_tasks s"
    and blocked: "\<not> dependencies_met s task"
    and key: "score = - priority_value (st_priority task)"
  shows "get_next_task now s = None"
proof (rule ccontr)
  assume "get_next_task now s \<noteq> None"
  then obtain r where r: "get_next_task now s = Some r" by auto
  have "s' \<noteq> s" if "get_next_task now' s' = Some r'" for now' s' r'
  proof (rule get_next_task.raw_induct [where P = "\<lambda>_ s' _. s' \<noteq> s", OF _ that])
    fix f :: "real \<Rightarrow> task_scheduler \<Rightarrow> ((py_error + sleep_task option) \<times> task_scheduler) option"
    fix n1 s1 y
    assume IH: "\<And>n2 s2 y2. f n2 s2 = Some y2 \<Longrightarrow> s2 \<noteq> s"
    assume step: "(case task_queue s1 of [] \<Rightarrow> Some (Inr None, s1)
      | (score, task_id) # rest \<Rightarrow>
          case sleep_tasks s1 task_id of
          None \<Rightarrow> Some (Inl (KeyError task_id), s1)
          | Some task \<Rightarrow>
              if task_id \<in> scheduled_tasks s1 \<or> task_id \<in> completed_tasks s1
              then f n1 (s1\<lparr>task_queue := rest\<rparr>)
              else if \<not> dependencies_met s1 task
                   then f n1 (s1\<lparr>task_queue := heappush rest (- priority_value (st_priority task), task_id)\<rparr>)
                   else if \<not> can_execute_task (monitor s1) task
                   then Some (Inr None, s1)
                   else Some (Inr (Some (task\<lparr>st_status := scheduled, scheduled_at := Some n1\<rparr>)),
                          s1\<lparr>task_queue := rest,
                            scheduled_tasks := insert task_id (scheduled_tasks s1),
                            sleep_tasks := (sleep_tasks s1)
                              (task_id \<mapsto> task\<lparr>st_status := scheduled, scheduled_at := Some n1\<rparr>)\<rparr>)) = Some y"
    show "s1 \<noteq> s"
    proof
      assume eq: "s1 = s"
      have same: "s\<lparr>task_queue := heappush rest (- priority_value (st_priority task), tid)\<rparr> = s"
        using q srt key by (simp add: heappush_def insort_least)
      from step have "f n1 s = Some y"
        using q t ns blocked same unfolding eq by simp
      with IH show False by blast
    qed
  qed
  with r show False by blast
qed

text \<open>
  The failing input: one queued task \<open>T\<close> of priority MEDIUM that depends on \<open>X\<close>, which is
  not completed. No queued task is ready, and the call does not return.
\<close>

theorem get_next_task_blocked_head_diverges_witness:
  "get_next_task 0 (one_task_scheduler MEDIUM [''X'']) = None"
  by (rule get_next_task_blocked_head_diverges
        [where tid = "''T''" and score = "- 1" and rest = "[]"
           and task = "example_sleep_task MEDIUM [''X'']"])
     (simp_all add: one_task_scheduler_def example_sleep_task_def dependencies_met_def)

subsection \<open>C8: mark\_task\_failed\<close>

text \<open>
  C8, as stated: a failure whose error string does not contain \<open>critical\<close> re-queues the
  task. The empty error string (the \<open>str\<close> of an exception raised without a message)
  contains no \<open>critical\<close>, yet the task stays failed at its priority and the queue is
  not touched.
\<close>

theorem mark_task_failed_counterexample:
  "\<not> str_contains ''critical'' []
   \<and> (let s = (one_task_scheduler HIGH [])\<lparr>task_queue := []\<rparr>;
           r = mark_task_failed 1 s ''T'' (Some [])
       in fst r = Inr True
          \<and> task_queue (snd r) = []
          \<and> map_option st_status (sleep_tasks (snd r) ''T'') = Some failed
          \<and> map_option st_priority (sleep_tasks (snd r) ''T'') = Some HIGH)"
  by (simp add: mark_task_failed_def one_task_scheduler_def example_sleep_task_def
      requeue_wanted_def Let_def)

text \<open>
  C8, amended: when \<open>mark_task_failed\<close> is called for a known task, then if the error is
  a non-empty string with no \<open>critical\<close> in any letter case, the task is re-queued (one
  entry under its new priority is pushed) with its priority one level lower, with a floor
  of 0 (strictly lower above the floor), and its status is reset to pending; if the error
  is absent, empty or contains \<open>critical\<close> in some letter case, the task stays failed at
  its priority and is not re-queued. Either way the call returns true.
\<close>

theorem mark_task_failed_spec:
  assumes known: "sleep_tasks s tid = Some task"
  shows "(requeue_wanted err \<longleftrightarrow>
            (\<exists>e. err = Some e \<and> e \<noteq> [] \<and> \<not> str_contains ''critical'' (lower e)))
       \<and> fst (mark_task_failed now s tid err) = Inr True
       \<and> (\<exists>task'. sleep_tasks (snd (mark_task_failed now s tid err)) tid = Some task'
            \<and> (if requeue_wanted err
                 then st_status task' = pending
                    \<and> priority_value (st_priority task') = max 0 (priority_value (st_priority task) - 1)
                    \<and> (0 < priority_value (st_priority task) \<longrightarrow>
                          priority_value (st_priority task') < priority_value (st_priority task))
                    \<and> task_queue (snd (mark_task_failed now s tid err)) =
                          heappush (task_queue s) (- priority_value (st_priority task'), tid)
                 else st_status task' = failed
                    \<and> st_priority task' = st_priority task
                    \<and> task_queue (snd (mark_task_failed now s tid err)) = task_queue s))"
proof -
  have guard: "requeue_wanted err \<longleftrightarrow>
      (\<exists>e. err = Some e \<and> e \<noteq> [] \<and> \<not> str_contains ''critical'' (lower e))"
    by (simp add: requeue_wanted_def split: option.splits)
  obtain p where p: "TaskPriority_of (max 0 (priority_value (st_priority task) - 1)) = Some p"
    and pv: "priority_value p = max 0 (priority_value (st_priority task) - 1)"
    by (cases "st_priority task") (simp_all add: TaskPriority_of_def)
  show ?thesis
  proof (cases "requeue_wanted err")
    case True
    with known p pv guard show ?thesis
      by (simp add: mark_task_failed_def Let_def)
  next
    case False
    with known guard show ?thesis
      by (simp add: mark_task_failed_def Let_def)
  qed
qed

theorem mark_task_failed_spec_witness:
  "sleep_tasks (one_task_scheduler HIGH []) ''T'' = Some (example_sleep_task HIGH [])
   \<and> requeue_wanted (Some ''transient error'')
   \<and> \<not> requeue_wanted (Some ''a CRITICAL fault'')
   \<and> fst (mark_task_failed 1 (one_task_scheduler HIGH []) ''T'' (Some ''transient error'')) = Inr True
   \<and> (\<exists>task'. sleep_tasks (snd (mark_task_failed 1 (one_task_scheduler HIGH []) ''T''
                       (Some ''transient error''))) ''T'' = Some task'
          \<and> st_status task' = pending \<and> priority_value (st_priority task') = 1)
   \<and> (\<exists>task'. sleep_tasks (snd (mark_task_failed 1 (one_task_scheduler HIGH []) ''T''
                       (Some ''a CRITICAL fault''))) ''T'' = Some task'
          \<and> st_status task' = failed \<and> st_priority task' = HIGH)"
proof -
  have k: "sleep_tasks (one_task_scheduler HIGH []) ''T'' = Some (example_sleep_task HIGH [])"
    by (simp add: one_task_scheduler_def)
  have w: "requeue_wanted (Some ''transient error'')" by code_simp
  have c: "\<not> requeue_wanted (Some ''a CRITICAL fault'')" by code_simp
  have pr: "priority_value (st_priority (example_sleep_task HIGH [])) = 2"
    "st_priority (example_sleep_task HIGH []) = HIGH"
    by (simp_all add: example_sleep_task_def)
  from mark_task_failed_spec [OF k, of "Some ''transient error''" 1] w pr
  have a: "\<exists>task'. sleep_tasks (snd (mark_task_failed 1 (one_task_scheduler HIGH []) ''T''
                       (Some ''transient error''))) ''T'' = Some task'
          \<and> st_status task' = pending \<and> priority_value (st_priority task') = 1"
    and a': "fst (mark_task_failed 1 (one_task_scheduler HIGH []) ''T'' (Some ''transient error'')) = Inr True"
    by auto
  from mark_task_failed_spec [OF k, of "Some ''a CRITICAL fault''" 1] c pr
  have b: "\<exists>task'. sleep_tasks (snd (mark_task_failed 1 (one_task_scheduler HIGH []) ''T''
                       (Some ''a CRITICAL fault''))) ''T'' = Some task'
          \<and> st_status task' = failed \<and> st_priority task' = HIGH"
    by auto
  from k w c a a' b show ?thesis by blast
qed

section \<open>Task orchestrator: proofs about execute\_task and cancel\<close>

lemma executor_fail:
  assumes "executor_ready st t pid mid prov"
    and "execute_prompt prov (provider_calls st) mid (prepare_prompt_for_task t) = Inl msg"
  shows "executor_execute_task st (t\<lparr>status := RUNNING\<rparr>) =
     (Inl (ProviderError msg),
      t\<lparr>status := RUNNING, assigned_provider := Some pid, assigned_model := Some mid,
       execution_trace := execution_trace t @
         [\<lparr>tr_provider = pid, tr_model = mid, tr_success = False, tr_error = Some msg\<rparr>]\<rparr>,
      Suc (provider_calls st))"
  using assms
  by (simp add: executor_execute_task_def executor_ready_def determine_role_for_task_def
      prepare_prompt_for_task_def Let_def)

lemma executor_success:
  assumes "executor_ready st t pid mid prov"
    and "execute_prompt prov (provider_calls st) mid (prepare_prompt_for_task t) = Inr resp"
  shows "executor_execute_task st (t\<lparr>status := RUNNING\<rparr>) =
     (Inr (parse_response resp),
      t\<lparr>status := RUNNING, assigned_provider := Some pid, assigned_model := Some mid,
       execution_trace := execution_trace t @
         [\<lparr>tr_provider = pid, tr_model = mid, tr_success = True, tr_error = None\<rparr>]\<rparr>,
      Suc (provider_calls st))"
  using assms
  by (simp add: executor_execute_task_def executor_ready_def determine_role_for_task_def
      prepare_prompt_for_task_def Let_def)

lemma execute_task_fail_step:
  assumes t: "get_task st tid = Some t" and deps: "unsatisfied_dependency st t = None"
    and ready: "executor_ready st t pid mid prov"
    and fail: "execute_prompt prov (provider_calls st) mid (prepare_prompt_for_task t) = Inl msg"
  shows "execute_task st tid =
     (if retry_count t + 1 < max_retries t
      then execute_task (st\<lparr>tasks := (tasks st)(tid \<mapsto> failed_attempt t pid mid msg),
                            provider_calls := Suc (provider_calls st)\<rparr>) tid
      else (Inl (ProviderError msg),
            st\<lparr>tasks := (tasks st)(tid \<mapsto> (failed_attempt t pid mid msg)\<lparr>status := FAILED\<rparr>),
               provider_calls := Suc (provider_calls st)\<rparr>))"
  by (subst execute_task.simps)
     (simp add: t deps executor_fail [OF ready fail] failed_attempt_def)

lemma execute_task_success_step:
  assumes t: "get_task st tid = Some t" and deps: "unsatisfied_dependency st t = None"
    and ready: "executor_ready st t pid mid prov"
    and ok: "execute_prompt prov (provider_calls st) mid (prepare_prompt_for_task t) = Inr resp"
  shows "execute_task st tid =
     (Inr (parse_response resp),
      st\<lparr>tasks := (tasks st)(tid \<mapsto> succeeded_attempt t pid mid (parse_response resp)),
         provider_calls := Suc (provider_calls st)\<rparr>)"
  by (subst execute_task.simps)
     (simp add: t deps executor_success [OF ready ok] succeeded_attempt_def)

lemma unsatisfied_dependency_frame:
  assumes "tid \<notin> set (dependencies t)"
  shows "unsatisfied_dependency (st\<lparr>tasks := (tasks st)(tid \<mapsto> t'), provider_calls := n\<rparr>) t
       = unsatisfied_dependency st t"
proof -
  have "dependency_satisfied (st\<lparr>tasks := (tasks st)(tid \<mapsto> t'), provider_calls := n\<rparr>) d
      = dependency_satisfied st d" if "d \<in> set (dependencies t)" for d
    using that assms by (auto simp: dependency_satisfied_def get_task_def)
  then show ?thesis
    unfolding unsatisfied_dependency_def by (metis (mono_tags, lifting) find_cong)
qed

lemma retry_then_success:
  assumes "get_task st tid = Some t" and "unsatisfied_dependency st t = None"
    and "tid \<notin> set (dependencies t)"
    and "executor_ready st t pid mid prov"
    and "\<forall>i<k. \<exists>msg. execute_prompt prov (provider_calls st + i) mid (prepare_prompt_for_task t) = Inl msg"
    and "execute_prompt prov (provider_calls st + k) mid (prepare_prompt_for_task t) = Inr resp"
    and "retry_count t + int k < max_retries t \<or> k = 0"
  shows "\<exists>st' t'. execute_task st tid = (Inr (parse_response resp), st')
        \<and> get_task st' tid = Some t'
        \<and> status t' = COMPLETED \<and> result t' = Some (parse_response resp)
        \<and> retry_count t' = retry_count t + int k
        \<and> length (execution_trace t') = length (execution_trace t) + k + 1
        \<and> provider_calls st' = provider_calls st + k + 1"
  using assms
proof (induction k arbitrary: st t)
  case 0
  from "0.prems"(6) have ok: "execute_prompt prov (provider_calls st) mid (prepare_prompt_for_task t) = Inr resp"
    by simp
  show ?case
    by (simp add: execute_task_success_step [OF "0.prems"(1,2,4) ok] succeeded_attempt_def get_task_def)
next
  case (Suc k)
  from Suc.prems(5) obtain msg where
    fail: "execute_prompt prov (provider_calls st) mid (prepare_prompt_for_task t) = Inl msg"
    by (metis add.right_neutral zero_less_Suc)
  let ?t1 = "failed_attempt t pid mid msg"
  let ?st1 = "st\<lparr>tasks := (tasks st)(tid \<mapsto> ?t1), provider_calls := Suc (provider_calls st)\<rparr>"
  from Suc.prems(7) have more: "retry_count t + 1 < max_retries t" by simp
  have step: "execute_task st tid = execute_task ?st1 tid"
    using execute_task_fail_step [OF Suc.prems(1,2,4) fail] more by simp
  have p1: "get_task ?st1 tid = Some ?t1" by (simp add: get_task_def)
  have same: "dependencies ?t1 = dependencies t" "prepare_prompt_for_task ?t1 = prepare_prompt_for_task t"
    "determine_role_for_task ?t1 = determine_role_for_task t"
    by (simp_all add: failed_attempt_def prepare_prompt_for_task_def determine_role_for_task_def)
  have p2: "unsatisfied_dependency ?st1 ?t1 = None"
    using unsatisfied_dependency_frame [where tid = tid and t = ?t1 and st = st and t' = ?t1
        and n = "Suc (provider_calls st)"]
      Suc.prems(2,3) same(1) by (simp add: unsatisfied_dependency_def)
  have p3: "tid \<notin> set (dependencies ?t1)" using Suc.prems(3) same by simp
  have p4: "executor_ready ?st1 ?t1 pid mid prov"
    using Suc.prems(4) same by (simp add: executor_ready_def)
  have p5: "\<forall>i<k. \<exists>msg. execute_prompt prov (provider_calls ?st1 + i) mid (prepare_prompt_for_task ?t1) = Inl msg"
    using Suc.prems(5) same by (auto dest: spec [where x = "Suc _"])
  have p6: "execute_prompt prov (provider_calls ?st1 + k) mid (prepare_prompt_for_task ?t1) = Inr resp"
    using Suc.prems(6) same by simp
  have p7: "retry_count ?t1 + int k < max_retries ?t1 \<or> k = 0"
    using Suc.prems(7) by (simp add: failed_attempt_def)
  from Suc.IH [OF p1 p2 p3 p4 p5 p6 p7] step
  show ?case by (auto simp: failed_attempt_def)
qed

lemma retry_exhausted:
  assumes "get_task st tid = Some t" and "unsatisfied_dependency st t = None"
    and "tid \<notin> set (dependencies t)"
    and "executor_ready st t pid mid prov"
    and "\<forall>i<attempts_left t. \<exists>msg. execute_prompt prov (provider_calls st + i) mid (prepare_prompt_for_task t) = Inl msg"
  shows "\<exists>msg st' t'. execute_task st tid = (Inl (ProviderError msg), st')
        \<and> get_task st' tid = Some t'
        \<and> status t' = FAILED \<and> error t' = Some msg
        \<and> retry_count t' = retry_count t + int (attempts_left t)
        \<and> length (execution_trace t') = length (execution_trace t) + attempts_left t
        \<and> provider_calls st' = provider_calls st + attempts_left t"
  using assms
proof (induction "attempts_left t" arbitrary: st t rule: less_induct)
  case less
  have "0 < attempts_left t" by (simp add: attempts_left_def)
  with less.prems(5) obtain msg where
    fail: "execute_prompt prov (provider_calls st) mid (prepare_prompt_for_task t) = Inl msg"
    by (metis add.right_neutral)
  let ?t1 = "failed_attempt t pid mid msg"
  let ?st1 = "st\<lparr>tasks := (tasks st)(tid \<mapsto> ?t1), provider_calls := Suc (provider_calls st)\<rparr>"
  note step = execute_task_fail_step [OF less.prems(1,2,4) fail]
  show ?case
  proof (cases "retry_count t + 1 < max_retries t")
    case False
    then have one: "attempts_left t = 1" by (simp add: attempts_left_def)
    from False step show ?thesis
      by (simp add: one failed_attempt_def get_task_def)
  next
    case True
    then have n: "attempts_left t = Suc (attempts_left ?t1)"
      by (simp add: attempts_left_def failed_attempt_def)
    have same: "dependencies ?t1 = dependencies t" "prepare_prompt_for_task ?t1 = prepare_prompt_for_task t"
      "determine_role_for_task ?t1 = determine_role_for_task t"
      by (simp_all add: failed_attempt_def prepare_prompt_for_task_def determine_role_for_task_def)
    have p0: "attempts_left ?t1 < attempts_left t" using n by simp
    have p1: "get_task ?st1 tid = Some ?t1" by (simp add: get_task_def)
    have p2: "unsatisfied_dependency ?st1 ?t1 = None"
      using unsatisfied_dependency_frame [where tid = tid and t = ?t1 and st = st and t' = ?t1
          and n = "Suc (provider_calls st)"]
        less.prems(2,3) same(1) by (simp add: unsatisfied_dependency_def)
    have p3: "tid \<notin> set (dependencies ?t1)" using less.prems(3) same by simp
    have p4: "executor_ready ?st1 ?t1 pid mid prov"
      using less.prems(4) same by (simp add: executor_ready_def)
    have p5: "\<forall>i<attempts_left ?t1. \<exists>msg. execute_prompt prov (provider_calls ?st1 + i) mid
                 (prepare_prompt_for_task ?t1) = Inl msg"
      using less.prems(5) same n by (auto dest: spec [where x = "Suc _"])
    from less.hyps [OF p0 p1 p2 p3 p4 p5] step True n
    show ?thesis by (auto simp: failed_attempt_def)
  qed
qed

lemma cancel_task_other:
  "tasks st x = Some t \<Longrightarrow> \<not> is_active (status t) \<Longrightarrow> tasks (snd (cancel_task st y)) x = Some t"
  by (auto simp: cancel_task_def get_task_def split: option.splits)

lemma cancel_all_terminal:
  "tasks st x = Some t \<Longrightarrow> \<not> is_active (status t) \<Longrightarrow> tasks (snd (cancel_all st ids acc)) x = Some t"
proof (induction ids arbitrary: st acc)
  case Nil
  then show ?case by simp
next
  case (Cons y ys)
  obtain b st' where c: "cancel_task st y = (b, st')" by (cases "cancel_task st y")
  with cancel_task_other [OF Cons.prems, of y] have "tasks st' x = Some t" by simp
  from Cons.IH [OF this Cons.prems(2)] c show ?case by (cases b) simp_all
qed

lemma cancel_workflow_terminal:
  "tasks st x = Some t \<Longrightarrow> \<not> is_active (status t) \<Longrightarrow> tasks (snd (cancel_workflow st w)) x = Some t"
  using cancel_all_terminal [of st x t]
  by (auto simp: cancel_workflow_def split: option.splits prod.splits) (metis snd_conv)

lemma terminal_not_active: "is_terminal s \<longleftrightarrow> \<not> is_active s"
  by (cases s) (simp_all add: is_terminal_def is_active_def)

lemma execute_task_refused:
  "get_task st tid = None \<or> (\<exists>t d. get_task st tid = Some t \<and> unsatisfied_dependency st t = Some d)
    \<Longrightarrow> snd (execute_task st tid) = st"
  by (subst execute_task.simps) auto

subsection \<open>C7: retries\<close>

text \<open>
  C7. Take a task of the table whose dependencies are all COMPLETED. When the executor
  invocation fails, the executor has left \<open>retry_count\<close> and \<open>max_retries\<close> alone,
  \<open>execute_task\<close> adds one to \<open>retry_count\<close> and, if that is below \<open>max_retries\<close>, runs
  \<open>execute_task\<close> again on the task; otherwise it marks the task FAILED and raises.
  End to end, for a task that does not depend on itself and whose executor reaches a
  provider: if the provider fails \<open>k\<close> times and then answers, and the \<open>k\<close> retries are
  within \<open>max_retries\<close>, the task ends COMPLETED with \<open>retry_count\<close> raised by \<open>k\<close> and
  \<open>k + 1\<close> more trace records; if the provider fails on every attempt, the task ends FAILED.
  With \<open>max_retries = 3\<close> and a provider that fails twice and then answers, the task ends
  COMPLETED with \<open>retry_count = 2\<close> and three trace records.
\<close>

theorem execute_task_retry:
  assumes known: "get_task st tid = Some t" and deps: "unsatisfied_dependency st t = None"
  shows "(\<forall>e t2 n. executor_execute_task st (t\<lparr>status := RUNNING\<rparr>) = (Inl e, t2, n) \<longrightarrow>
            retry_count t2 = retry_count t \<and> max_retries t2 = max_retries t
          \<and> execute_task st tid =
              (if retry_count t + 1 < max_retries t
               then execute_task
                      (st\<lparr>tasks := (tasks st)
                            (tid \<mapsto> t2\<lparr>retry_count := retry_count t + 1, error := Some (str_of e)\<rparr>),
                          provider_calls := n\<rparr>) tid
               else (Inl e,
                     st\<lparr>tasks := (tasks st)
                           (tid \<mapsto> t2\<lparr>retry_count := retry_count t + 1, error := Some (str_of e),
                                      status := FAILED\<rparr>),
                        provider_calls := n\<rparr>)))
       \<and> (tid \<notin> set (dependencies t) \<and> executor_ready st t pid mid prov \<longrightarrow>
            (\<forall>k resp.
               (\<forall>i<k. \<exists>msg. execute_prompt prov (provider_calls st + i) mid
                              (prepare_prompt_for_task t) = Inl msg)
               \<and> execute_prompt prov (provider_calls st + k) mid (prepare_prompt_for_task t) = Inr resp
               \<and> (retry_count t + int k < max_retries t \<or> k = 0)
               \<longrightarrow> (\<exists>st' t'. execute_task st tid = (Inr (parse_response resp), st')
                      \<and> get_task st' tid = Some t'
                      \<and> status t' = COMPLETED \<and> result t' = Some (parse_response resp)
                      \<and> retry_count t' = retry_count t + int k
                      \<and> length (execution_trace t') = length (execution_trace t) + k + 1))
          \<and> ((\<forall>i<attempts_left t. \<exists>msg. execute_prompt prov (provider_calls st + i) mid
                              (prepare_prompt_for_task t) = Inl msg)
               \<longrightarrow> (\<exists>msg st' t'. execute_task st tid = (Inl (ProviderError msg), st')
                      \<and> get_task st' tid = Some t'
                      \<and> status t' = FAILED \<and> error t' = Some msg
                      \<and> retry_count t' = retry_count t + int (attempts_left t)
                      \<and> length (execution_trace t') = length (execution_trace t) + attempts_left t)))
       \<and> (let r = execute_task (example_orchestrator [0, 1] [(''T'', Task ''t'' [] [] 3)]) ''T''
          in map_sum str_of res_result (fst r) = Inr ''done''
             \<and> map_option status (tasks (snd r) ''T'') = Some COMPLETED
             \<and> map_option retry_count (tasks (snd r) ''T'') = Some 2
             \<and> map_option (\<lambda>t. length (execution_trace t)) (tasks (snd r) ''T'') = Some 3)"
proof -
  have step: "retry_count t2 = retry_count t \<and> max_retries t2 = max_retries t
          \<and> execute_task st tid =
              (if retry_count t + 1 < max_retries t
               then execute_task
                      (st\<lparr>tasks := (tasks st)
                            (tid \<mapsto> t2\<lparr>retry_count := retry_count t + 1, error := Some (str_of e)\<rparr>),
                          provider_calls := n\<rparr>) tid
               else (Inl e,
                     st\<lparr>tasks := (tasks st)
                           (tid \<mapsto> t2\<lparr>retry_count := retry_count t + 1, error := Some (str_of e),
                                      status := FAILED\<rparr>),
                        provider_calls := n\<rparr>))"
    if ran: "executor_execute_task st (t\<lparr>status := RUNNING\<rparr>) = (Inl e, t2, n)" for e t2 n
  proof -
    from ran have same: "retry_count t2 = retry_count t" "max_retries t2 = max_retries t"
      by (auto simp: executor_execute_task_def Let_def split: sum.splits prod.splits)
    show ?thesis
      by (subst execute_task.simps) (simp add: known deps ran same)
  qed
  have scenario: "let r = execute_task (example_orchestrator [0, 1] [(''T'', Task ''t'' [] [] 3)]) ''T''
          in map_sum str_of res_result (fst r) = Inr ''done''
             \<and> map_option status (tasks (snd r) ''T'') = Some COMPLETED
             \<and> map_option retry_count (tasks (snd r) ''T'') = Some 2
             \<and> map_option (\<lambda>t. length (execution_trace t)) (tasks (snd r) ''T'') = Some 3"
    by code_simp
  have ends: "(\<forall>k resp.
               (\<forall>i<k. \<exists>msg. execute_prompt prov (provider_calls st + i) mid
                              (prepare_prompt_for_task t) = Inl msg)
               \<and> execute_prompt prov (provider_calls st + k) mid (prepare_prompt_for_task t) = Inr resp
               \<and> (retry_count t + int k < max_retries t \<or> k = 0)
               \<longrightarrow> (\<exists>st' t'. execute_task st tid = (Inr (parse_response resp), st')
                      \<and> get_task st' tid = Some t'
                      \<and> status t' = COMPLETED \<and> result t' = Some (parse_response resp)
                      \<and> retry_count t' = retry_count t + int k
                      \<and> length (execution_trace t') = length (execution_trace t) + k + 1))
          \<and> ((\<forall>i<attempts_left t. \<exists>msg. execute_prompt prov (provider_calls st + i) mid
                              (prepare_prompt_for_task t) = Inl msg)
               \<longrightarrow> (\<exists>msg st' t'. execute_task st tid = (Inl (ProviderError msg), st')
                      \<and> get_task st' tid = Some t'
                      \<and> status t' = FAILED \<and> error t' = Some msg
                      \<and> retry_count t' = retry_count t + int (attempts_left t)
                      \<and> length (execution_trace t') = length (execution_trace t) + attempts_left t))"
    if self: "tid \<notin> set (dependencies t)" and ready: "executor_ready st t pid mid prov"
    using retry_then_success [OF known deps self ready] retry_exhausted [OF known deps self ready]
    by blast
  from step ends scenario show ?thesis by blast
qed

theorem execute_task_retry_witness:
  "get_task (example_orchestrator [0, 1] [(''T'', Task ''t'' [] [] 3)]) ''T'' = Some (Task ''t'' [] [] 3)
   \<and> unsatisfied_dependency (example_orchestrator [0, 1] [(''T'', Task ''t'' [] [] 3)])
        (Task ''t'' [] [] 3) = None
   \<and> ''T'' \<notin> set (dependencies (Task ''t'' [] [] 3))
   \<and> executor_ready (example_orchestrator [0, 1] [(''T'', Task ''t'' [] [] 3)]) (Task ''t'' [] [] 3)
        ''P1'' ''m1'' (scripted_provider 1 [0, 1])
   \<and> (\<exists>st' t'. execute_task (example_orchestrator [0, 1] [(''T'', Task ''t'' [] [] 3)]) ''T''
                 = (Inr (parse_response \<lparr>resp_text = Some ''done'', resp_metadata = None\<rparr>), st')
          \<and> get_task st' ''T'' = Some t' \<and> status t' = COMPLETED
          \<and> retry_count t' = 2 \<and> length (execution_trace t') = 3)"
proof -
  let ?ex = "example_orchestrator [0, 1] [(''T'', Task ''t'' [] [] 3)]"
  let ?t = "Task ''t'' [] [] 3"
  let ?p = "scripted_provider 1 [0, 1]"
  have h1: "get_task ?ex ''T'' = Some ?t"
    by (simp add: example_orchestrator_def create_workflow_def add_task_def get_task_def)
  have h2: "unsatisfied_dependency ?ex ?t = None"
    by (simp add: unsatisfied_dependency_def Task_def)
  have h3: "''T'' \<notin> set (dependencies ?t)" by (simp add: Task_def)
  have h4: "executor_ready ?ex ?t ''P1'' ''m1'' ?p"
    by (simp add: executor_ready_def example_orchestrator_def create_workflow_def add_task_def
        get_best_model_for_role_def get_provider_def)
  have c: "provider_calls ?ex = 0"
    by (simp add: example_orchestrator_def create_workflow_def add_task_def)
  have h5: "\<forall>i<2. \<exists>msg. execute_prompt ?p (provider_calls ?ex + i) ''m1''
                              (prepare_prompt_for_task ?t) = Inl msg"
    unfolding c by (auto simp: scripted_provider_def less_2_cases_iff)
  have h6: "execute_prompt ?p (provider_calls ?ex + 2) ''m1'' (prepare_prompt_for_task ?t)
            = Inr \<lparr>resp_text = Some ''done'', resp_metadata = None\<rparr>"
    unfolding c by (simp add: scripted_provider_def)
  have h7: "retry_count ?t + int 2 < max_retries ?t \<or> (2::nat) = 0" by (simp add: Task_def)
  have r: "retry_count ?t = 0" "length (execution_trace ?t) = 0" by (simp_all add: Task_def)
  from execute_task_retry [OF h1 h2, of "''P1''" "''m1''" ?p] h3 h4
  have "\<forall>k resp.
               (\<forall>i<k. \<exists>msg. execute_prompt ?p (provider_calls ?ex + i) ''m1''
                              (prepare_prompt_for_task ?t) = Inl msg)
               \<and> execute_prompt ?p (provider_calls ?ex + k) ''m1'' (prepare_prompt_for_task ?t) = Inr resp
               \<and> (retry_count ?t + int k < max_retries ?t \<or> k = 0)
               \<longrightarrow> (\<exists>st' t'. execute_task ?ex ''T'' = (Inr (parse_response resp), st')
                      \<and> get_task st' ''T'' = Some t'
                      \<and> status t' = COMPLETED \<and> result t' = Some (parse_response resp)
                      \<and> retry_count t' = retry_count ?t + int k
                      \<and> length (execution_trace t') = length (execution_trace ?t) + k + 1)"
    by blast
  from this [rule_format, of 2 "\<lparr>resp_text = Some ''done'', resp_metadata = None\<rparr>"] h5 h6 h7 r
  have "\<exists>st' t'. execute_task ?ex ''T''
                 = (Inr (parse_response \<lparr>resp_text = Some ''done'', resp_metadata = None\<rparr>), st')
          \<and> get_task st' ''T'' = Some t' \<and> status t' = COMPLETED
          \<and> retry_count t' = 2 \<and> length (execution_trace t') = 3"
    by (auto simp: eval_nat_numeral)
  with h1 h2 h3 h4 show ?thesis by blast
qed

subsection \<open>C1: terminal statuses\<close>




section \<open>Task orchestrator: proofs about execute\_workflow\<close>

lemma same_shape_refl: "same_shape st st"
  by (simp add: same_shape_def)

lemma same_shape_trans: "same_shape a b \<Longrightarrow> same_shape b c \<Longrightarrow> same_shape a c"
  by (simp add: same_shape_def)

lemma executor_keeps_dependencies:
  "executor_execute_task st t = (r, t2, n) \<Longrightarrow> dependencies t2 = dependencies t"
  by (auto simp: executor_execute_task_def Let_def split: sum.splits prod.splits)

lemma same_shape_update:
  assumes "tasks st k = Some t" "dependencies t' = dependencies t"
  shows "same_shape st (st\<lparr>tasks := (tasks st)(k \<mapsto> t'), provider_calls := n\<rparr>)"
  using assms by (auto simp: same_shape_def task_dependencies_def get_task_def)

lemma execute_task_shape: "same_shape st (snd (execute_task st task_id))"
proof (induction st task_id rule: execute_task.induct)
  case (1 st task_id)
  show ?case
  proof (cases "get_task st task_id")
    case None
    then show ?thesis by (subst execute_task.simps) (simp add: same_shape_refl)
  next
    case (Some t)
    show ?thesis
    proof (cases "unsatisfied_dependency st t")
      case (Some d)
      with \<open>get_task st task_id = Some t\<close> show ?thesis
        by (subst execute_task.simps) (simp add: same_shape_refl)
    next
      case None
      obtain r t2 n where ex: "executor_execute_task st (t\<lparr>status := RUNNING\<rparr>) = (r, t2, n)"
        by (cases "executor_execute_task st (t\<lparr>status := RUNNING\<rparr>)")
      from executor_keeps_dependencies [OF ex] have d2: "dependencies t2 = dependencies t" by simp
      have known: "tasks st task_id = Some t" using Some by (simp add: get_task_def)
      show ?thesis
      proof (cases r)
        case (Inr res)
        with Some None ex show ?thesis
          by (subst execute_task.simps)
             (simp add: same_shape_update [OF known] d2)
      next
        case (Inl e)
        show ?thesis
        proof (cases "retry_count t2 + 1 < max_retries t2")
          case False
          with Some None ex Inl show ?thesis
            by (subst execute_task.simps)
               (simp add: same_shape_update [OF known] d2)
        next
          case True
          let ?st1 = "st\<lparr>tasks := (tasks st)
                 (task_id \<mapsto> t2\<lparr>retry_count := retry_count t2 + 1, error := Some (str_of e)\<rparr>),
               provider_calls := n\<rparr>"
          have a: "same_shape st ?st1" by (rule same_shape_update [OF known]) (simp add: d2)
          have b: "same_shape ?st1 (snd (execute_task ?st1 task_id))"
            using "1.IH" [OF Some None ex [symmetric] Inl refl True] by simp
          have "execute_task st task_id = execute_task ?st1 task_id"
            using Some None ex Inl True by (subst execute_task.simps) simp
          with same_shape_trans [OF a b] show ?thesis by simp
        qed
      qed
    qed
  qed
qed

lemma gather_length: "length (fst (gather st ids)) = length ids"
proof (induction ids arbitrary: st)
  case Nil
  then show ?case by simp
next
  case (Cons a ids)
  obtain r st1 where e: "execute_task st a = (r, st1)" by (cases "execute_task st a")
  obtain rs st2 where g: "gather st1 ids = (rs, st2)" by (cases "gather st1 ids")
  with Cons.IH [of st1] have "length rs = length ids" by simp
  with e g show ?case by simp
qed

lemma gather_shape: "same_shape st (snd (gather st ids))"
proof (induction ids arbitrary: st)
  case Nil
  then show ?case by (simp add: same_shape_refl)
next
  case (Cons a ids)
  obtain r st1 where e: "execute_task st a = (r, st1)" by (cases "execute_task st a")
  obtain rs st2 where g: "gather st1 ids = (rs, st2)" by (cases "gather st1 ids")
  from e execute_task_shape [of st a] have "same_shape st st1" by simp
  moreover from g Cons.IH [of st1] have "same_shape st1 st2" by simp
  ultimately have "same_shape st st2" by (rule same_shape_trans)
  with e g show ?case by simp
qed

lemma mark_shape: "same_shape st (mark_dependent_failed b st d)"
  by (auto simp: mark_dependent_failed_def same_shape_def task_dependencies_def get_task_def
      split: option.splits)

lemma mark_all_shape: "same_shape st (foldl (mark_dependent_failed b) st ds)"
proof (induction ds arbitrary: st)
  case Nil
  then show ?case by (simp add: same_shape_refl)
next
  case (Cons d ds)
  from same_shape_trans [OF mark_shape Cons.IH] show ?case by simp
qed

lemma graph_deps_shape: "same_shape st st' \<Longrightarrow> graph_deps g st' d = graph_deps g st d"
  by (simp add: graph_deps_def same_shape_def)

lemma dependencies_in_results_iff:
  "dependencies_in_results g res st d \<longleftrightarrow> graph_deps g st d \<subseteq> dom res"
  by (auto simp: dependencies_in_results_def graph_deps_def list_all_iff)

lemma process_results_props:
  assumes "process_results g zs (ready, res, st) = (ready', res', st')"
  shows "dom res' = dom res \<union> fst ` set zs"
    and "same_shape st st'"
    and "\<forall>d \<in> set ready'. d \<in> set ready
           \<or> (\<exists>b \<in> fst ` set zs. d \<in> set (g_dependents g b) \<and> graph_deps g st d \<subseteq> dom res')"
  using assms
proof (induction zs arbitrary: ready res st)
  case Nil
  {
    case 1 then show ?case by simp
  next
    case 2 then show ?case by (simp add: same_shape_refl)
  next
    case 3 then show ?case by simp
  }
next
  case (Cons z zs)
  obtain b r where z: "z = (b, r)" by (cases z)
  {
    case 1
    show ?case
    proof (cases r)
      case (Inl e)
      let ?st1 = "foldl (mark_dependent_failed b) st (g_dependents g b)"
      from 1 z Inl have eq: "process_results g zs (ready, res(b \<mapsto> Inl (str_of e)), ?st1) = (ready', res', st')"
        by simp
      have "dom res' = dom (res(b \<mapsto> Inl (str_of e))) \<union> fst ` set zs"
        using Cons.IH(1) [OF eq] .
      then show ?thesis unfolding z by simp
    next
      case (Inr x)
      let ?res1 = "res(b \<mapsto> Inr x)"
      let ?new = "filter (dependencies_in_results g ?res1 st) (g_dependents g b)"
      from 1 z Inr have eq: "process_results g zs (ready @ ?new, ?res1, st) = (ready', res', st')"
        by simp
      have "dom res' = dom ?res1 \<union> fst ` set zs"
        using Cons.IH(1) [OF eq] .
      then show ?thesis unfolding z by simp
    qed
  next
    case 2
    show ?case
    proof (cases r)
      case (Inl e)
      let ?st1 = "foldl (mark_dependent_failed b) st (g_dependents g b)"
      from 2 z Inl have eq: "process_results g zs (ready, res(b \<mapsto> Inl (str_of e)), ?st1) = (ready', res', st')"
        by simp
      from same_shape_trans [OF mark_all_shape Cons.IH(2) [OF eq]] show ?thesis .
    next
      case (Inr x)
      let ?res1 = "res(b \<mapsto> Inr x)"
      let ?new = "filter (dependencies_in_results g ?res1 st) (g_dependents g b)"
      from 2 z Inr have eq: "process_results g zs (ready @ ?new, ?res1, st) = (ready', res', st')"
        by simp
      from Cons.IH(2) [OF eq] show ?thesis .
    qed
  next
    case 3
    show ?case
    proof (cases r)
      case (Inl e)
      let ?st1 = "foldl (mark_dependent_failed b) st (g_dependents g b)"
      from 3 z Inl have eq: "process_results g zs (ready, res(b \<mapsto> Inl (str_of e)), ?st1) = (ready', res', st')"
        by simp
      have sh: "same_shape st ?st1" by (rule mark_all_shape)
      show ?thesis
      proof
        fix d assume "d \<in> set ready'"
        with Cons.IH(3) [OF eq] have "d \<in> set ready
           \<or> (\<exists>b' \<in> fst ` set zs. d \<in> set (g_dependents g b') \<and> graph_deps g ?st1 d \<subseteq> dom res')"
          by blast
        then show "d \<in> set ready
           \<or> (\<exists>b' \<in> fst ` set (z # zs). d \<in> set (g_dependents g b') \<and> graph_deps g st d \<subseteq> dom res')"
          unfolding graph_deps_shape [OF sh] by auto
      qed
    next
      case (Inr x)
      let ?res1 = "res(b \<mapsto> Inr x)"
      let ?new = "filter (dependencies_in_results g ?res1 st) (g_dependents g b)"
      from 3 z Inr have eq: "process_results g zs (ready @ ?new, ?res1, st) = (ready', res', st')"
        by simp
      have "dom res' = dom ?res1 \<union> fst ` set zs"
        using Cons.IH(1) [OF eq] .
      then have dom: "dom ?res1 \<subseteq> dom res'" by blast
      have new: "d \<in> set (g_dependents g b) \<and> graph_deps g st d \<subseteq> dom res'" if "d \<in> set ?new" for d
      proof -
        from that have "d \<in> set (g_dependents g b)" and "graph_deps g st d \<subseteq> dom ?res1"
          by (simp_all add: dependencies_in_results_iff)
        with dom show ?thesis by blast
      qed
      show ?thesis
      proof
        fix d assume "d \<in> set ready'"
        with Cons.IH(3) [OF eq] have "d \<in> set (ready @ ?new)
           \<or> (\<exists>b' \<in> fst ` set zs. d \<in> set (g_dependents g b') \<and> graph_deps g st d \<subseteq> dom res')"
          by blast
        then consider "d \<in> set ready" | "d \<in> set ?new"
          | "\<exists>b' \<in> fst ` set zs. d \<in> set (g_dependents g b') \<and> graph_deps g st d \<subseteq> dom res'"
          by auto
        then show "d \<in> set ready
           \<or> (\<exists>b' \<in> fst ` set (z # zs). d \<in> set (g_dependents g b') \<and> graph_deps g st d \<subseteq> dom res')"
        proof cases
          case 1
          then show ?thesis by simp
        next
          case 2
          from new [OF this] z show ?thesis by auto
        next
          case 3
          then show ?thesis by auto
        qed
      qed
    qed
  }
qed

lemma set_dict_keys: "set (dict_keys ids) = set ids"
  by (simp add: dict_keys_def)

lemma keys_graph_of: "set (g_keys (graph_of st ids)) = set ids"
  by (simp add: graph_of_def set_dict_keys)

lemma dependents_iff:
  "d \<in> set (g_dependents (graph_of st ids) b) \<longleftrightarrow> d \<in> set ids \<and> b \<in> set (task_dependencies st d)"
  by (auto simp: graph_of_def set_dict_keys)

lemma workflow_round:
  assumes inv: "workflow_inv (graph_of st0 ids) st0 ready res st"
    and g: "gather st ready = (trs, st1)"
    and p: "process_results (graph_of st0 ids) (zip ready trs) ([], res, st1) = (ready', res', st2)"
  shows "workflow_inv (graph_of st0 ids) st0 ready' res' st2" and "dom res' = dom res \<union> set ready"
proof -
  let ?g = "graph_of st0 ids"
  from inv have r_keys: "set ready \<subseteq> set ids" and disj: "set ready \<inter> dom res = {}"
    and d_keys: "dom res \<subseteq> set ids"
    and closed: "\<forall>t \<in> set ready \<union> dom res. graph_deps ?g st0 t \<subseteq> dom res"
    and sh: "same_shape st0 st"
    by (simp_all add: workflow_inv_def keys_graph_of)
  from g gather_length [of st ready] have len: "length trs = length ready" by simp
  then have ids_zip: "fst ` set (zip ready trs) = set ready"
    by (metis map_fst_zip set_map)
  from g gather_shape [of st ready] have sh1: "same_shape st st1" by simp
  note props = process_results_props [OF p]
  from props(1) ids_zip show dom': "dom res' = dom res \<union> set ready" by simp
  have sh01: "same_shape st0 st1" using sh sh1 by (rule same_shape_trans)
  have sh2: "same_shape st0 st2" using sh01 props(2) by (rule same_shape_trans)
  have new: "d \<in> set ids \<and> graph_deps ?g st0 d \<subseteq> dom res' \<and> (\<exists>b \<in> set ready. b \<in> graph_deps ?g st0 d)"
    if "d \<in> set ready'" for d
  proof -
    from props(3) that ids_zip obtain b where b: "b \<in> set ready" "d \<in> set (g_dependents ?g b)"
      and sub: "graph_deps ?g st1 d \<subseteq> dom res'"
      by auto
    from b(2) have "d \<in> set ids" "b \<in> set (task_dependencies st0 d)" by (simp_all add: dependents_iff)
    moreover from b(1) r_keys have "b \<in> set ids" by blast
    ultimately have "b \<in> graph_deps ?g st0 d" by (simp add: graph_deps_def keys_graph_of)
    with \<open>d \<in> set ids\<close> sub b(1) graph_deps_shape [OF sh01, of ?g d] show ?thesis by auto
  qed
  have fresh: "d \<notin> dom res'" if "d \<in> set ready'" for d
  proof
    assume "d \<in> dom res'"
    with dom' have "d \<in> set ready \<union> dom res" by blast
    with closed have "graph_deps ?g st0 d \<subseteq> dom res" by blast
    moreover from new [OF that] obtain b where "b \<in> set ready" "b \<in> graph_deps ?g st0 d" by blast
    ultimately show False using disj by blast
  qed
  have closed': "\<forall>t \<in> set ready' \<union> dom res'. graph_deps ?g st0 t \<subseteq> dom res'"
  proof
    fix t assume "t \<in> set ready' \<union> dom res'"
    then consider "t \<in> set ready'" | "t \<in> set ready \<union> dom res" using dom' by blast
    then show "graph_deps ?g st0 t \<subseteq> dom res'"
    proof cases
      case 1
      with new show ?thesis by blast
    next
      case 2
      with closed dom' show ?thesis by blast
    qed
  qed
  from new fresh closed' dom' r_keys d_keys sh2
  show "workflow_inv ?g st0 ready' res' st2"
    unfolding workflow_inv_def keys_graph_of by blast
qed

lemma workflow_loop_invariant:
  assumes "workflow_inv (graph_of orig ids) orig ready res st" and "Q ready res st"
    and step: "\<forall>ready res st trs st1 ready' res' st2.
      workflow_inv (graph_of orig ids) orig ready res st \<and> Q ready res st \<and> ready \<noteq> [] \<and>
      gather st ready = (trs, st1) \<and>
      process_results (graph_of orig ids) (zip ready trs) ([], res, st1) = (ready', res', st2) \<longrightarrow>
      Q ready' res' st2"
  shows "\<exists>res_f st_f. workflow_loop (graph_of orig ids) ready res st = Some (res_f, st_f)
           \<and> dom res \<union> set ready \<subseteq> dom res_f \<and> dom res_f \<subseteq> set ids \<and> same_shape orig st_f
           \<and> Q [] res_f st_f"
  using assms(1,2)
proof (induction "card (set ids - dom res)" arbitrary: ready res st rule: less_induct)
  case less
  let ?g = "graph_of orig ids"
  show ?case
  proof (cases "ready = []")
    case True
    with less.prems show ?thesis
      by (subst workflow_loop.simps) (simp add: workflow_inv_def keys_graph_of)
  next
    case False
    obtain trs st1 where g: "gather st ready = (trs, st1)" by (cases "gather st ready")
    obtain ready' res' st2 where
      p: "process_results ?g (zip ready trs) ([], res, st1) = (ready', res', st2)"
      by (cases "process_results ?g (zip ready trs) ([], res, st1)")
    note round = workflow_round [OF less.prems(1) g p]
    have Q': "Q ready' res' st2" using less.prems False g p step by blast
    from less.prems(1) have r_keys: "set ready \<subseteq> set ids" and disj: "set ready \<inter> dom res = {}"
      by (simp_all add: workflow_inv_def keys_graph_of)
    from False obtain x where x: "x \<in> set ready" by (cases ready) auto
    with r_keys disj round(2) have "x \<in> set ids - dom res" "x \<notin> set ids - dom res'" by auto
    moreover have "set ids - dom res' \<subseteq> set ids - dom res" using round(2) by blast
    ultimately have "set ids - dom res' \<subset> set ids - dom res" by blast
    then have "card (set ids - dom res') < card (set ids - dom res)"
      by (simp add: psubset_card_mono)
    from less.hyps [OF this round(1) Q'] obtain res_f st_f where
      fin: "workflow_loop ?g ready' res' st2 = Some (res_f, st_f)"
        "dom res' \<union> set ready' \<subseteq> dom res_f" "dom res_f \<subseteq> set ids" "same_shape orig st_f"
        "Q [] res_f st_f"
      by blast
    have "workflow_loop ?g ready res st = workflow_loop ?g ready' res' st2"
      using False g p by (subst workflow_loop.simps) simp
    with fin round(2) show ?thesis by auto
  qed
qed

lemma workflow_loop_returns:
  assumes "workflow_inv (graph_of st0 ids) st0 ready res st"
  shows "\<exists>res_f st_f. workflow_loop (graph_of st0 ids) ready res st = Some (res_f, st_f)
           \<and> dom res \<union> set ready \<subseteq> dom res_f \<and> dom res_f \<subseteq> set ids \<and> same_shape st0 st_f"
  using workflow_loop_invariant [where Q = "\<lambda>_ _ _. True" and orig = st0, OF assms] by simp

lemma initial_inv:
  "workflow_inv (graph_of st ids) st (initial_ready (graph_of st ids)) Map.empty st"
proof -
  have "graph_deps (graph_of st ids) st t = {}" if "t \<in> set (initial_ready (graph_of st ids))" for t
    using that by (auto simp: initial_ready_def graph_deps_def graph_of_def list_all_iff)
  moreover have "set (initial_ready (graph_of st ids)) \<subseteq> set (g_keys (graph_of st ids))"
    by (auto simp: initial_ready_def)
  ultimately show ?thesis
    by (auto simp: workflow_inv_def same_shape_refl)
qed

lemma build_graph_known:
  "\<forall>task_id \<in> set ids. get_task st task_id \<noteq> None \<Longrightarrow> build_graph st ids = Inr (graph_of st ids)"
  by (auto simp: build_graph_def list_ex_iff)

lemma failed_in_iff: "failed_in res a \<longleftrightarrow> (\<exists>e. res a = Some (Inl e))"
  by (auto simp: failed_in_def split: option.splits sum.splits)

lemma failed_in_upd_Inl: "failed_in (res(b \<mapsto> Inl e)) a \<longleftrightarrow> a = b \<or> failed_in res a"
  by (auto simp: failed_in_iff)

lemma failed_in_upd_Inr: "failed_in (res(b \<mapsto> Inr v)) a \<longleftrightarrow> a \<noteq> b \<and> failed_in res a"
  by (auto simp: failed_in_iff)

lemma failed_in_dom: "failed_in res a \<Longrightarrow> a \<in> dom res"
  by (auto simp: failed_in_iff)

lemma dependency_satisfied_cong:
  "tasks st' k = tasks st k \<Longrightarrow> dependency_satisfied st' k = dependency_satisfied st k"
  by (simp add: dependency_satisfied_def get_task_def)

lemma execute_task_frame: "y \<noteq> x \<Longrightarrow> tasks (snd (execute_task st x)) y = tasks st y"
proof (induction st x rule: execute_task.induct)
  case (1 st task_id)
  show ?case
  proof (cases "get_task st task_id")
    case None
    then show ?thesis by (subst execute_task.simps) simp
  next
    case (Some t)
    show ?thesis
    proof (cases "unsatisfied_dependency st t")
      case (Some d)
      with \<open>get_task st task_id = Some t\<close> show ?thesis
        by (subst execute_task.simps) simp
    next
      case None
      obtain r t2 n where ex: "executor_execute_task st (t\<lparr>status := RUNNING\<rparr>) = (r, t2, n)"
        by (cases "executor_execute_task st (t\<lparr>status := RUNNING\<rparr>)")
      show ?thesis
      proof (cases r)
        case (Inr res)
        with Some None ex "1.prems" show ?thesis
          by (subst execute_task.simps) simp
      next
        case (Inl e)
        show ?thesis
        proof (cases "retry_count t2 + 1 < max_retries t2")
          case False
          with Some None ex Inl "1.prems" show ?thesis
            by (subst execute_task.simps) simp
        next
          case True
          let ?st1 = "st\<lparr>tasks := (tasks st)
                 (task_id \<mapsto> t2\<lparr>retry_count := retry_count t2 + 1, error := Some (str_of e)\<rparr>),
               provider_calls := n\<rparr>"
          have b: "tasks (snd (execute_task ?st1 task_id)) y = tasks ?st1 y"
            using "1.IH" [OF Some None ex [symmetric] Inl refl True "1.prems"] .
          have "execute_task st task_id = execute_task ?st1 task_id"
            using Some None ex Inl True by (subst execute_task.simps) simp
          with b "1.prems" show ?thesis by simp
        qed
      qed
    qed
  qed
qed

lemma execute_task_blocked:
  assumes "get_task st x = Some t" "a \<in> set (dependencies t)" "\<not> dependency_satisfied st a"
  shows "snd (execute_task st x) = st" and "isl (fst (execute_task st x))"
proof -
  from assms(2,3) obtain d where "unsatisfied_dependency st t = Some d"
    unfolding unsatisfied_dependency_def by (cases "find (\<lambda>dep_id. \<not> dependency_satisfied st dep_id) (dependencies t)") (auto simp: find_None_iff)
  with assms(1) show "snd (execute_task st x) = st" and "isl (fst (execute_task st x))"
    by (subst execute_task.simps, simp)+
qed

lemma execute_task_error_not_completed:
  "isl (fst (execute_task st x)) \<Longrightarrow> \<not> dependency_satisfied st x
     \<Longrightarrow> \<not> dependency_satisfied (snd (execute_task st x)) x"
proof (induction st x rule: execute_task.induct)
  case (1 st task_id)
  show ?case
  proof (cases "get_task st task_id")
    case None
    with "1.prems" show ?thesis by (subst execute_task.simps) simp
  next
    case (Some t)
    show ?thesis
    proof (cases "unsatisfied_dependency st t")
      case (Some d)
      with \<open>get_task st task_id = Some t\<close> "1.prems" show ?thesis
        by (subst execute_task.simps) simp
    next
      case None
      obtain r t2 n where ex: "executor_execute_task st (t\<lparr>status := RUNNING\<rparr>) = (r, t2, n)"
        by (cases "executor_execute_task st (t\<lparr>status := RUNNING\<rparr>)")
      show ?thesis
      proof (cases r)
        case (Inr res)
        with Some None ex have "\<not> isl (fst (execute_task st task_id))"
          by (subst execute_task.simps) simp
        with "1.prems" show ?thesis by simp
      next
        case (Inl e)
        show ?thesis
        proof (cases "retry_count t2 + 1 < max_retries t2")
          case False
          with Some None ex Inl show ?thesis
            by (subst execute_task.simps) (simp add: dependency_satisfied_def get_task_def)
        next
          case True
          let ?st1 = "st\<lparr>tasks := (tasks st)
                 (task_id \<mapsto> t2\<lparr>retry_count := retry_count t2 + 1, error := Some (str_of e)\<rparr>),
               provider_calls := n\<rparr>"
          have eq: "execute_task st task_id = execute_task ?st1 task_id"
            using Some None ex Inl True by (subst execute_task.simps) simp
          from ex have "status t2 = RUNNING"
            by (auto simp: executor_execute_task_def Let_def split: sum.splits prod.splits)
          then have nc: "\<not> dependency_satisfied ?st1 task_id"
            by (simp add: dependency_satisfied_def get_task_def)
          from "1.prems"(1) eq have "isl (fst (execute_task ?st1 task_id))" by simp
          from "1.IH" [OF Some None ex [symmetric] Inl refl True this nc] eq
          show ?thesis by simp
        qed
      qed
    qed
  qed
qed


lemma tasks_mark:
  "tasks (mark_dependent_failed b st d) y =
     (if y = d then map_option (mark_failed b) (tasks st d) else tasks st y)"
  by (auto simp: mark_dependent_failed_def mark_failed_def get_task_def split: option.splits)

lemma mark_failed_idem: "mark_failed b (mark_failed b t) = mark_failed b t"
  by (simp add: mark_failed_def)

lemma tasks_mark_all:
  "tasks (foldl (mark_dependent_failed b) st ds) y =
     (if y \<in> set ds then map_option (mark_failed b) (tasks st y) else tasks st y)"
proof (induction ds arbitrary: st)
  case Nil
  then show ?case by simp
next
  case (Cons d ds)
  have "tasks (foldl (mark_dependent_failed b) (mark_dependent_failed b st d) ds) y =
     (if y \<in> set ds then map_option (mark_failed b) (tasks (mark_dependent_failed b st d) y)
      else tasks (mark_dependent_failed b st d) y)"
    by (rule Cons.IH)
  then show ?case
    by (cases "tasks st d") (auto simp: tasks_mark mark_failed_idem)
qed

lemma marks_not_completed:
  assumes "\<not> dependency_satisfied st y"
  shows "\<not> dependency_satisfied (foldl (mark_dependent_failed b) st ds) y"
  using assms
  by (auto simp: dependency_satisfied_def get_task_def tasks_mark_all mark_failed_def
      split: option.splits)

lemma marks_untouched:
  assumes "untouched st0 st y"
  shows "untouched st0 (foldl (mark_dependent_failed b) st ds) y"
proof -
  from assms obtain t0 t where t: "tasks st0 y = Some t0" "tasks st y = Some t"
    "t = t0\<lparr>status := status t, error := error t\<rparr>"
    unfolding untouched_def by blast
  show ?thesis
  proof (cases "y \<in> set ds")
    case False
    with t show ?thesis unfolding untouched_def by (simp add: tasks_mark_all)
  next
    case True
    have "mark_failed b t = t0\<lparr>status := status (mark_failed b t), error := error (mark_failed b t)\<rparr>"
      by (subst t(3)) (simp add: mark_failed_def)
    with t True show ?thesis unfolding untouched_def by (simp add: tasks_mark_all)
  qed
qed

lemma untouched_cong: "tasks st' k = tasks st k \<Longrightarrow> untouched st0 st' k = untouched st0 st k"
  by (simp add: untouched_def)

lemma marked_cong: "tasks st' k = tasks st k \<Longrightarrow> marked g st0 res st' k = marked g st0 res st k"
  by (simp add: marked_def)

lemma gather_frame: "y \<notin> set xs \<Longrightarrow> tasks (snd (gather st xs)) y = tasks st y"
proof (induction xs arbitrary: st)
  case Nil
  then show ?case by simp
next
  case (Cons x xs)
  obtain r st1 where e: "execute_task st x = (r, st1)" by (cases "execute_task st x")
  obtain rs st2 where g: "gather st1 xs = (rs, st2)" by (cases "gather st1 xs")
  from Cons.prems have "y \<noteq> x" "y \<notin> set xs" by simp_all
  from execute_task_frame [OF this(1), of st] e have "tasks st1 y = tasks st y" by simp
  moreover from Cons.IH [OF \<open>y \<notin> set xs\<close>, of st1] g have "tasks st2 y = tasks st1 y" by simp
  ultimately show ?case using e g by simp
qed


lemma shape_dependencies:
  "same_shape st0 st \<Longrightarrow> tasks st x = Some t \<Longrightarrow> set (dependencies t) = set (task_dependencies st0 x)"
proof -
  assume sh: "same_shape st0 st" and t: "tasks st x = Some t"
  from t have "task_dependencies st x = dependencies t"
    by (simp add: task_dependencies_def get_task_def)
  with sh show ?thesis by (simp add: same_shape_def)
qed

lemma execute_task_poison:
  assumes inv: "poison_inv g st0 E res st" and xe: "x \<notin> E" and re: "dom res \<subseteq> E"
    and sh: "same_shape st0 st" and xk: "x \<in> set (g_keys g)"
  shows "poison_inv g st0 (insert x E) res (snd (execute_task st x))"
proof -
  let ?st1 = "snd (execute_task st x)"
  from inv have K1: "\<forall>a. failed_in res a \<longrightarrow> \<not> dependency_satisfied st a"
    and K2: "\<forall>y \<in> set (g_keys g). y \<notin> E \<longrightarrow> \<not> dependency_satisfied st y \<and> untouched st0 st y"
    and K3: "\<forall>d \<in> set (g_keys g). poisoned g st0 res d \<longrightarrow> marked g st0 res st d \<and> untouched st0 st d"
    unfolding poison_inv_def by blast+
  have fr: "tasks ?st1 y = tasks st y" if "y \<noteq> x" for y
    using that by (rule execute_task_frame)
  have K1': "\<not> dependency_satisfied ?st1 a" if "failed_in res a" for a
  proof -
    from that re have "a \<in> E" using failed_in_dom by blast
    with xe have "a \<noteq> x" by blast
    from dependency_satisfied_cong [OF fr [OF this]] K1 that show ?thesis by simp
  qed
  have K2': "\<not> dependency_satisfied ?st1 y \<and> untouched st0 ?st1 y"
    if "y \<in> set (g_keys g)" "y \<notin> insert x E" for y
  proof -
    from that have "y \<noteq> x" "y \<notin> E" by simp_all
    from dependency_satisfied_cong [OF fr [OF this(1)]] untouched_cong [OF fr [OF this(1)]]
      K2 that(1) \<open>y \<notin> E\<close>
    show ?thesis by simp
  qed
  have K3': "marked g st0 res ?st1 d \<and> untouched st0 ?st1 d"
    if "d \<in> set (g_keys g)" "poisoned g st0 res d" for d
  proof (cases "d = x")
    case False
    from marked_cong [OF fr [OF this]] untouched_cong [OF fr [OF this]] K3 that
    show ?thesis by simp
  next
    case True
    from that(2) obtain a where a: "a \<in> graph_deps g st0 d" "failed_in res a"
      unfolding poisoned_def by blast
    from K1 a(2) have na: "\<not> dependency_satisfied st a" by blast
    from K2 xk xe obtain t where t: "tasks st x = Some t" unfolding untouched_def by blast
    from a(1) True have "a \<in> set (task_dependencies st0 x)" by (simp add: graph_deps_def)
    with shape_dependencies [OF sh t] have "a \<in> set (dependencies t)" by simp
    from execute_task_blocked(1) [OF _ this na, of x] t have "?st1 = st" by (simp add: get_task_def)
    with K3 that show ?thesis by simp
  qed
  from K1' K2' K3' show ?thesis unfolding poison_inv_def by blast
qed

lemma gather_poison:
  assumes "poison_inv g st0 E res st" and "distinct xs" and "set xs \<inter> E = {}" and "dom res \<subseteq> E"
    and "same_shape st0 st" and "set xs \<subseteq> set (g_keys g)" and "gather st xs = (rs, st')"
  shows "poison_inv g st0 (E \<union> set xs) res st'
       \<and> (\<forall>(x, r) \<in> set (zip xs rs). isl r \<longrightarrow> \<not> dependency_satisfied st' x)"
  using assms
proof (induction xs arbitrary: st E rs st')
  case Nil
  then show ?case by simp
next
  case (Cons x xs)
  obtain r st1 where e: "execute_task st x = (r, st1)" by (cases "execute_task st x")
  obtain rs1 st2 where g1: "gather st1 xs = (rs1, st2)" by (cases "gather st1 xs")
  from Cons.prems(7) e g1 have rs: "rs = r # rs1" and st': "st' = st2" by simp_all
  from Cons.prems have x: "x \<notin> E" "x \<in> set (g_keys g)" "x \<notin> set xs" by auto
  from execute_task_poison [OF Cons.prems(1) x(1) Cons.prems(4,5) x(2)] e
  have inv1: "poison_inv g st0 (insert x E) res st1" by simp
  from execute_task_shape [of st x] e have "same_shape st st1" by simp
  with Cons.prems(5) have sh1: "same_shape st0 st1" by (rule same_shape_trans)
  from Cons.prems x have p: "distinct xs" "set xs \<inter> insert x E = {}" "dom res \<subseteq> insert x E"
    "set xs \<subseteq> set (g_keys g)" by auto
  from Cons.IH [OF inv1 p(1,2,3) sh1 p(4) g1]
  have A: "poison_inv g st0 (insert x E \<union> set xs) res st2"
    and B: "\<forall>(y, r') \<in> set (zip xs rs1). isl r' \<longrightarrow> \<not> dependency_satisfied st2 y"
    by blast+
  have C: "\<not> dependency_satisfied st2 x" if "isl r"
  proof -
    from Cons.prems(1) x have "\<not> dependency_satisfied st x" unfolding poison_inv_def by blast
    with execute_task_error_not_completed [of st x] e that
    have "\<not> dependency_satisfied st1 x" by simp
    moreover from gather_frame [OF x(3), of st1] g1 have "tasks st2 x = tasks st1 x" by simp
    ultimately show ?thesis using dependency_satisfied_cong by blast
  qed
  have "E \<union> set (x # xs) = insert x E \<union> set xs" by auto
  with A B C rs st' show ?case by auto
qed


lemma poison_step_failure:
  assumes inv: "poison_inv (graph_of st0 ids) st0 E res st"
    and fresh: "b \<notin> dom res" and key: "b \<in> set ids"
    and nc: "\<not> dependency_satisfied st b"
    and out: "\<forall>d \<in> set (g_dependents (graph_of st0 ids) b). d \<notin> E"
  shows "poison_inv (graph_of st0 ids) st0 E (res(b \<mapsto> Inl e))
           (foldl (mark_dependent_failed b) st (g_dependents (graph_of st0 ids) b))"
proof -
  let ?g = "graph_of st0 ids"
  let ?ds = "g_dependents ?g b"
  let ?st1 = "foldl (mark_dependent_failed b) st ?ds"
  let ?res1 = "res(b \<mapsto> Inl e)"
  from inv have K1: "\<forall>a. failed_in res a \<longrightarrow> \<not> dependency_satisfied st a"
    and K2: "\<forall>y \<in> set ids. y \<notin> E \<longrightarrow> \<not> dependency_satisfied st y \<and> untouched st0 st y"
    and K3: "\<forall>d \<in> set ids. poisoned ?g st0 res d \<longrightarrow> marked ?g st0 res st d \<and> untouched st0 st d"
    unfolding poison_inv_def keys_graph_of by blast+
  have K1': "\<not> dependency_satisfied ?st1 a" if "failed_in ?res1 a" for a
  proof -
    from that have "a = b \<or> failed_in res a" by (simp add: failed_in_upd_Inl)
    with nc K1 have "\<not> dependency_satisfied st a" by blast
    then show ?thesis by (rule marks_not_completed)
  qed
  have K2': "\<not> dependency_satisfied ?st1 y \<and> untouched st0 ?st1 y" if "y \<in> set ids" "y \<notin> E" for y
    using K2 that marks_not_completed marks_untouched by blast
  have K3': "marked ?g st0 ?res1 ?st1 d \<and> untouched st0 ?st1 d"
    if d: "d \<in> set ids" and po: "poisoned ?g st0 ?res1 d" for d
  proof (cases "d \<in> set ?ds")
    case True
    with out have "d \<notin> E" by blast
    with K2 d have un: "untouched st0 st d" by blast
    then obtain t where t: "tasks st d = Some t" unfolding untouched_def by blast
    from True have "b \<in> set (task_dependencies st0 d)" by (simp add: dependents_iff)
    with key have bd: "b \<in> graph_deps ?g st0 d" by (simp add: graph_deps_def keys_graph_of)
    from t True have "tasks ?st1 d = Some (mark_failed b t)" by (simp add: tasks_mark_all)
    moreover have "failed_in ?res1 b" by (simp add: failed_in_upd_Inl)
    ultimately have "marked ?g st0 ?res1 ?st1 d"
      unfolding marked_def using bd by (auto simp: mark_failed_def)
    with marks_untouched [OF un] show ?thesis by blast
  next
    case False
    with d have "b \<notin> set (task_dependencies st0 d)" by (simp add: dependents_iff)
    then have nb: "b \<notin> graph_deps ?g st0 d" by (simp add: graph_deps_def)
    from po obtain a where a: "a \<in> graph_deps ?g st0 d" "failed_in ?res1 a"
      unfolding poisoned_def by blast
    with nb have "failed_in res a" by (auto simp: failed_in_upd_Inl)
    with a(1) have "poisoned ?g st0 res d" unfolding poisoned_def by blast
    with K3 d have m: "marked ?g st0 res st d" and un: "untouched st0 st d" by blast+
    from False have same: "tasks ?st1 d = tasks st d" by (simp add: tasks_mark_all)
    from m obtain t x where "tasks st d = Some t" "status t = FAILED"
      "error t = Some (''Dependency failed: '' @ x)" "x \<in> graph_deps ?g st0 d" "failed_in res x"
      unfolding marked_def by blast
    moreover from this(5) have "failed_in ?res1 x" by (simp add: failed_in_upd_Inl)
    ultimately have "marked ?g st0 ?res1 ?st1 d" unfolding marked_def using same by auto
    with untouched_cong [OF same, of st0] un show ?thesis by simp
  qed
  from K1' K2' K3' show ?thesis unfolding poison_inv_def keys_graph_of by blast
qed

lemma poison_step_success:
  assumes inv: "poison_inv g st0 E res st" and fresh: "b \<notin> dom res"
  shows "poison_inv g st0 E (res(b \<mapsto> Inr v)) st"
proof -
  let ?res1 = "res(b \<mapsto> Inr v)"
  have mono: "failed_in ?res1 x" if "failed_in res x" for x
    using that fresh failed_in_dom [OF that] by (auto simp: failed_in_upd_Inr)
  have anti: "failed_in res x" if "failed_in ?res1 x" for x
    using that by (simp add: failed_in_upd_Inr)
  have po: "poisoned g st0 res d" if "poisoned g st0 ?res1 d" for d
    using that anti unfolding poisoned_def by blast
  have ma: "marked g st0 ?res1 st d" if "marked g st0 res st d" for d
    using that mono unfolding marked_def by blast
  from inv anti po ma show ?thesis unfolding poison_inv_def by blast
qed

lemma process_poison:
  assumes "process_results (graph_of st0 ids) zs (ready, res, st) = (ready', res', st')"
    and "poison_inv (graph_of st0 ids) st0 E res st"
    and "distinct (map fst zs)" and "fst ` set zs \<inter> dom res = {}"
    and "\<forall>(x, r) \<in> set zs. isl r \<longrightarrow> \<not> dependency_satisfied st x"
    and "\<forall>b \<in> fst ` set zs. b \<in> set ids \<and> (\<forall>d \<in> set (g_dependents (graph_of st0 ids) b). d \<notin> E)"
  shows "poison_inv (graph_of st0 ids) st0 E res' st'"
  using assms
proof (induction zs arbitrary: ready res st)
  case Nil
  then show ?case by simp
next
  case (Cons z zs)
  let ?g = "graph_of st0 ids"
  obtain b r where z: "z = (b, r)" by (cases z)
  from Cons.prems(3,4,6) z have b: "b \<notin> dom res" "b \<in> set ids" "b \<notin> fst ` set zs"
    and out: "\<forall>d \<in> set (g_dependents ?g b). d \<notin> E"
    and dz: "distinct (map fst zs)" by auto
  from Cons.prems(6) have out': "\<forall>b \<in> fst ` set zs. b \<in> set ids
        \<and> (\<forall>d \<in> set (g_dependents ?g b). d \<notin> E)" by simp
  show ?case
  proof (cases r)
    case (Inl e)
    let ?st1 = "foldl (mark_dependent_failed b) st (g_dependents ?g b)"
    let ?res1 = "res(b \<mapsto> Inl (str_of e))"
    from Cons.prems(1) z Inl have eq: "process_results ?g zs (ready, ?res1, ?st1) = (ready', res', st')"
      by simp
    from Cons.prems(5) z Inl have nc: "\<not> dependency_satisfied st b" by simp
    have inv1: "poison_inv ?g st0 E ?res1 ?st1"
      using Cons.prems(2) b(1,2) nc out by (rule poison_step_failure)
    have disj: "fst ` set zs \<inter> dom ?res1 = {}" using Cons.prems(4) b(3) by auto
    have f1: "\<forall>(x, r) \<in> set zs. isl r \<longrightarrow> \<not> dependency_satisfied ?st1 x"
      using Cons.prems(5) marks_not_completed by fastforce
    show ?thesis using eq inv1 dz disj f1 out' by (rule Cons.IH)
  next
    case (Inr v)
    let ?res1 = "res(b \<mapsto> Inr v)"
    let ?new = "filter (dependencies_in_results ?g ?res1 st) (g_dependents ?g b)"
    from Cons.prems(1) z Inr have eq: "process_results ?g zs (ready @ ?new, ?res1, st) = (ready', res', st')"
      by simp
    have inv1: "poison_inv ?g st0 E ?res1 st"
      using Cons.prems(2) b(1) by (rule poison_step_success)
    have disj: "fst ` set zs \<inter> dom ?res1 = {}" using Cons.prems(4) b(3) by auto
    have f1: "\<forall>(x, r) \<in> set zs. isl r \<longrightarrow> \<not> dependency_satisfied st x"
      using Cons.prems(5) by simp
    show ?thesis using eq inv1 dz disj f1 out' by (rule Cons.IH)
  qed
qed


lemma distinct_dict_keys: "distinct (dict_keys ids)"
  by (simp add: dict_keys_def)

lemma distinct_concat_singletons:
  assumes "distinct ks" and "\<forall>k \<in> set ks. f k = [] \<or> f k = [k]"
  shows "distinct (concat (map f ks))" and "set (concat (map f ks)) \<subseteq> set ks"
  using assms
proof (induction ks)
  case Nil
  { case 1 show ?case by simp next case 2 show ?case by simp }
next
  case (Cons k ks)
  {
    case 1
    from 1 have IH1: "distinct (concat (map f ks))" and IH2: "set (concat (map f ks)) \<subseteq> set ks"
      using Cons.IH by auto
    from 1 have "k \<notin> set ks" "f k = [] \<or> f k = [k]" by auto
    with IH1 IH2 show ?case by auto
  next
    case 2
    from 2 have IH2: "set (concat (map f ks)) \<subseteq> set ks" using Cons.IH by auto
    from 2 have "f k = [] \<or> f k = [k]" by auto
    with IH2 show ?case by auto
  }
qed

lemma filter_eq_distinct: "distinct xs \<Longrightarrow> filter (\<lambda>d. d = b) xs = [] \<or> filter (\<lambda>d. d = b) xs = [b]"
proof (induction xs)
  case Nil
  then show ?case by simp
next
  case (Cons a xs)
  then show ?case by (auto simp: filter_empty_conv)
qed

lemma distinct_dependents:
  assumes "\<forall>k \<in> set ids. distinct (task_dependencies st0 k)"
  shows "distinct (g_dependents (graph_of st0 ids) b)"
proof -
  have "map (\<lambda>_. k) (filter (\<lambda>d. d = b) (task_dependencies st0 k)) = []
      \<or> map (\<lambda>_. k) (filter (\<lambda>d. d = b) (task_dependencies st0 k)) = [k]"
    if "k \<in> set (dict_keys ids)" for k
  proof -
    from that assms have "distinct (task_dependencies st0 k)" by (simp add: set_dict_keys)
    from filter_eq_distinct [OF this, of b] show ?thesis by auto
  qed
  then show ?thesis
    unfolding graph_of_def
    by (simp add: distinct_concat_singletons(1) [OF distinct_dict_keys])
qed

lemma process_distinct:
  assumes "process_results g zs (ready, res, st) = (ready', res', st')"
    and "distinct ready" and "\<forall>d \<in> set ready. graph_deps g st0 d \<subseteq> dom res"
    and "same_shape st0 st"
    and "distinct (map fst zs)" and "fst ` set zs \<inter> dom res = {}"
    and "\<forall>b \<in> fst ` set zs. distinct (g_dependents g b)
           \<and> (\<forall>d \<in> set (g_dependents g b). b \<in> graph_deps g st0 d)"
  shows "distinct ready'"
  using assms
proof (induction zs arbitrary: ready res st)
  case Nil
  then show ?case by simp
next
  case (Cons z zs)
  obtain b r where z: "z = (b, r)" by (cases z)
  from Cons.prems(5,6,7) z have b: "b \<notin> dom res" "b \<notin> fst ` set zs" "distinct (g_dependents g b)"
    and bd: "\<forall>d \<in> set (g_dependents g b). b \<in> graph_deps g st0 d"
    and dz: "distinct (map fst zs)" by auto
  from Cons.prems(7) have rest: "\<forall>b \<in> fst ` set zs. distinct (g_dependents g b)
           \<and> (\<forall>d \<in> set (g_dependents g b). b \<in> graph_deps g st0 d)" by simp
  show ?case
  proof (cases r)
    case (Inl e)
    let ?st1 = "foldl (mark_dependent_failed b) st (g_dependents g b)"
    let ?res1 = "res(b \<mapsto> Inl (str_of e))"
    from Cons.prems(1) z Inl have eq: "process_results g zs (ready, ?res1, ?st1) = (ready', res', st')"
      by simp
    have c: "\<forall>d \<in> set ready. graph_deps g st0 d \<subseteq> dom ?res1" using Cons.prems(3) by auto
    have sh: "same_shape st0 ?st1" using Cons.prems(4) mark_all_shape by (rule same_shape_trans)
    have disj: "fst ` set zs \<inter> dom ?res1 = {}" using Cons.prems(6) b(2) by auto
    show ?thesis using eq Cons.prems(2) c sh dz disj rest by (rule Cons.IH)
  next
    case (Inr v)
    let ?res1 = "res(b \<mapsto> Inr v)"
    let ?new = "filter (dependencies_in_results g ?res1 st) (g_dependents g b)"
    from Cons.prems(1) z Inr have eq: "process_results g zs (ready @ ?new, ?res1, st) = (ready', res', st')"
      by simp
    have "d \<notin> set ready" if "d \<in> set ?new" for d
    proof
      assume "d \<in> set ready"
      with Cons.prems(3) have "graph_deps g st0 d \<subseteq> dom res" by blast
      moreover from that bd have "b \<in> graph_deps g st0 d" by simp
      ultimately show False using b(1) by blast
    qed
    with Cons.prems(2) b(3) have d1: "distinct (ready @ ?new)" by auto
    have c: "\<forall>d \<in> set (ready @ ?new). graph_deps g st0 d \<subseteq> dom ?res1"
    proof
      fix d assume "d \<in> set (ready @ ?new)"
      then consider "d \<in> set ready" | "d \<in> set ?new" by auto
      then show "graph_deps g st0 d \<subseteq> dom ?res1"
      proof cases
        case 1
        with Cons.prems(3) show ?thesis by auto
      next
        case 2
        then have "graph_deps g st d \<subseteq> dom ?res1" by (simp add: dependencies_in_results_iff)
        with graph_deps_shape [OF Cons.prems(4), of g d] show ?thesis by simp
      qed
    qed
    have disj: "fst ` set zs \<inter> dom ?res1 = {}" using Cons.prems(6) b(2) by auto
    show ?thesis using eq d1 c Cons.prems(4) dz disj rest by (rule Cons.IH)
  qed
qed


lemma poison_round:
  assumes I: "workflow_inv (graph_of st0 ids) st0 ready res st"
    and K: "poison_inv (graph_of st0 ids) st0 (dom res) res st \<and> distinct ready"
    and dd: "\<forall>k \<in> set ids. distinct (task_dependencies st0 k)"
    and g: "gather st ready = (trs, st1)"
    and p: "process_results (graph_of st0 ids) (zip ready trs) ([], res, st1) = (ready', res', st2)"
  shows "poison_inv (graph_of st0 ids) st0 (dom res') res' st2 \<and> distinct ready'"
proof -
  let ?g = "graph_of st0 ids"
  from I have r_keys: "set ready \<subseteq> set ids" and disj: "set ready \<inter> dom res = {}"
    and closed: "\<forall>t \<in> set ready \<union> dom res. graph_deps ?g st0 t \<subseteq> dom res"
    and sh: "same_shape st0 st"
    by (simp_all add: workflow_inv_def keys_graph_of)
  from K have K0: "poison_inv ?g st0 (dom res) res st" and dr: "distinct ready" by blast+
  from g gather_length [of st ready] have len: "length trs = length ready" by simp
  then have ids_zip: "fst ` set (zip ready trs) = set ready" and map_zip: "map fst (zip ready trs) = ready"
    by (metis map_fst_zip set_map, simp)
  note round = workflow_round [OF I g p]
  from g gather_shape [of st ready] sh have sh1: "same_shape st0 st1"
    using same_shape_trans by fastforce
  have keys: "set ready \<subseteq> set (g_keys ?g)" using r_keys by (simp add: keys_graph_of)
  from gather_poison [OF K0 dr _ _ sh keys g] disj
  have G: "poison_inv ?g st0 (dom res \<union> set ready) res st1"
    and F: "\<forall>(x, r) \<in> set (zip ready trs). isl r \<longrightarrow> \<not> dependency_satisfied st1 x"
    by auto
  have dep: "b \<in> graph_deps ?g st0 d \<and> d \<notin> dom res \<union> set ready"
    if "b \<in> set ready" "d \<in> set (g_dependents ?g b)" for b d
  proof -
    from that(2) have "b \<in> set (task_dependencies st0 d)" by (simp add: dependents_iff)
    with that(1) r_keys have bd: "b \<in> graph_deps ?g st0 d" by (auto simp: graph_deps_def keys_graph_of)
    have "d \<notin> dom res \<union> set ready"
    proof
      assume "d \<in> dom res \<union> set ready"
      with closed have "graph_deps ?g st0 d \<subseteq> dom res" by blast
      with bd that(1) disj show False by blast
    qed
    with bd show ?thesis by blast
  qed
  have out: "\<forall>b \<in> fst ` set (zip ready trs). b \<in> set ids
      \<and> (\<forall>d \<in> set (g_dependents ?g b). d \<notin> dom res \<union> set ready)"
    unfolding ids_zip using r_keys dep by blast
  have dz: "distinct (map fst (zip ready trs))" unfolding map_zip by (rule dr)
  have zr: "fst ` set (zip ready trs) \<inter> dom res = {}" unfolding ids_zip by (rule disj)
  have P: "poison_inv ?g st0 (dom res \<union> set ready) res' st2"
    using p G dz zr F out by (rule process_poison)
  have dl: "\<forall>b \<in> fst ` set (zip ready trs). distinct (g_dependents ?g b)
           \<and> (\<forall>d \<in> set (g_dependents ?g b). b \<in> graph_deps ?g st0 d)"
    unfolding ids_zip using distinct_dependents [OF dd] dep by blast
  have D: "distinct ready'"
    using p _ _ sh1 dz zr dl by (rule process_distinct) simp_all
  from P D round(2) show ?thesis by simp
qed

lemma initial_poison:
  assumes known: "\<forall>k \<in> set ids. get_task st k \<noteq> None"
    and fresh: "\<forall>k \<in> set ids. \<not> dependency_satisfied st k"
  shows "poison_inv (graph_of st ids) st (dom (Map.empty :: results)) Map.empty st
       \<and> distinct (initial_ready (graph_of st ids))"
proof -
  have "untouched st st k" if "k \<in> set ids" for k
    using that known by (auto simp: untouched_def get_task_def)
  moreover have "distinct (initial_ready (graph_of st ids))"
    by (simp add: initial_ready_def graph_of_def distinct_dict_keys)
  ultimately show ?thesis
    using fresh by (simp add: poison_inv_def keys_graph_of failed_in_iff poisoned_def)
qed

lemma execute_task_grows:
  "get_task s x = Some t \<Longrightarrow>
     \<exists>t'. get_task (snd (execute_task s x)) x = Some t'
        \<and> retry_count t \<le> retry_count t'
        \<and> length (execution_trace t) \<le> length (execution_trace t')"
proof (induction s x arbitrary: t rule: execute_task.induct)
  case (1 st task_id)
  note known = "1.prems"
  show ?case
  proof (cases "unsatisfied_dependency st t")
    case (Some d)
    with known show ?thesis by (subst execute_task.simps) simp
  next
    case None
    obtain r t2 n where ex: "executor_execute_task st (t\<lparr>status := RUNNING\<rparr>) = (r, t2, n)"
      by (cases "executor_execute_task st (t\<lparr>status := RUNNING\<rparr>)")
    then have g2: "retry_count t2 = retry_count t"
      "length (execution_trace t) \<le> length (execution_trace t2)"
      by (auto simp: executor_execute_task_def Let_def split: sum.splits prod.splits)
    show ?thesis
    proof (cases r)
      case (Inr res)
      with known None ex g2 show ?thesis
        by (subst execute_task.simps) (simp add: get_task_def)
    next
      case (Inl e)
      show ?thesis
      proof (cases "retry_count t2 + 1 < max_retries t2")
        case False
        with known None ex Inl g2 show ?thesis
          by (subst execute_task.simps) (simp add: get_task_def)
      next
        case True
        let ?t3 = "t2\<lparr>retry_count := retry_count t2 + 1, error := Some (str_of e)\<rparr>"
        let ?st1 = "st\<lparr>tasks := (tasks st)(task_id \<mapsto> ?t3), provider_calls := n\<rparr>"
        have eq: "execute_task st task_id = execute_task ?st1 task_id"
          using known None ex Inl True by (subst execute_task.simps) simp
        have k1: "get_task ?st1 task_id = Some ?t3" by (simp add: get_task_def)
        from "1.IH" [OF known None ex [symmetric] Inl refl True k1]
        obtain t' where "get_task (snd (execute_task ?st1 task_id)) task_id = Some t'"
          "retry_count ?t3 \<le> retry_count t'"
          "length (execution_trace ?t3) \<le> length (execution_trace t')"
          by blast
        with eq g2 show ?thesis by auto
      qed
    qed
  qed
qed

lemma execute_task_touches:
  assumes known: "get_task s x = Some t" and free: "unsatisfied_dependency s t = None"
  shows "\<exists>t'. get_task (snd (execute_task s x)) x = Some t'
        \<and> (retry_count t < retry_count t'
            \<or> length (execution_trace t) < length (execution_trace t'))"
proof -
  obtain r t2 n where ex: "executor_execute_task s (t\<lparr>status := RUNNING\<rparr>) = (r, t2, n)"
    by (cases "executor_execute_task s (t\<lparr>status := RUNNING\<rparr>)")
  then have g2: "retry_count t2 = retry_count t"
    "length (execution_trace t) \<le> length (execution_trace t2)"
    by (auto simp: executor_execute_task_def Let_def split: sum.splits prod.splits)
  show ?thesis
  proof (cases r)
    case (Inr res)
    with ex have "length (execution_trace t) < length (execution_trace t2)"
      by (auto simp: executor_execute_task_def Let_def split: sum.splits prod.splits)
    with known free ex Inr show ?thesis
      by (subst execute_task.simps) (simp add: get_task_def)
  next
    case (Inl e)
    show ?thesis
    proof (cases "retry_count t2 + 1 < max_retries t2")
      case False
      with known free ex Inl g2 show ?thesis
        by (subst execute_task.simps) (simp add: get_task_def)
    next
      case True
      let ?t3 = "t2\<lparr>retry_count := retry_count t2 + 1, error := Some (str_of e)\<rparr>"
      let ?st1 = "s\<lparr>tasks := (tasks s)(x \<mapsto> ?t3), provider_calls := n\<rparr>"
      have eq: "execute_task s x = execute_task ?st1 x"
        using known free ex Inl True by (subst execute_task.simps) simp
      have k1: "get_task ?st1 x = Some ?t3" by (simp add: get_task_def)
      from execute_task_grows [OF k1]
      obtain t' where "get_task (snd (execute_task ?st1 x)) x = Some t'"
        "retry_count ?t3 \<le> retry_count t'"
        by blast
      with eq g2 show ?thesis by auto
    qed
  qed
qed

subsection \<open>C2: the dependents of a failed task\<close>





subsection \<open>C6: the results map\<close>

lemma process_results_keeps:
  assumes "process_results g zs (ready, res, st) = (ready', res', st')" and "x \<notin> fst ` set zs"
  shows "res' x = res x"
  using assms
proof (induction zs arbitrary: ready res st)
  case Nil
  then show ?case by simp
next
  case (Cons z zs)
  obtain b r where z: "z = (b, r)" by (cases z)
  with Cons.prems(2) have xb: "x \<noteq> b" and xz: "x \<notin> fst ` set zs" by auto
  show ?case
  proof (cases r)
    case (Inl e)
    let ?st1 = "foldl (mark_dependent_failed b) st (g_dependents g b)"
    let ?res1 = "res(b \<mapsto> Inl (str_of e))"
    from Cons.prems(1) z Inl have eq: "process_results g zs (ready, ?res1, ?st1) = (ready', res', st')"
      by simp
    have "res' x = ?res1 x" using eq xz by (rule Cons.IH)
    with xb show ?thesis by simp
  next
    case (Inr v)
    let ?res1 = "res(b \<mapsto> Inr v)"
    let ?new = "filter (dependencies_in_results g ?res1 st) (g_dependents g b)"
    from Cons.prems(1) z Inr have eq: "process_results g zs (ready @ ?new, ?res1, st) = (ready', res', st')"
      by simp
    have "res' x = ?res1 x" using eq xz by (rule Cons.IH)
    with xb show ?thesis by simp
  qed
qed

lemma process_results_ready_mono:
  assumes "process_results g zs (ready, res, st) = (ready', res', st')"
  shows "set ready \<subseteq> set ready'"
  using assms
proof (induction zs arbitrary: ready res st)
  case Nil
  then show ?case by simp
next
  case (Cons z zs)
  obtain b r where z: "z = (b, r)" by (cases z)
  show ?case
  proof (cases r)
    case (Inl e)
    let ?st1 = "foldl (mark_dependent_failed b) st (g_dependents g b)"
    let ?res1 = "res(b \<mapsto> Inl (str_of e))"
    from Cons.prems(1) z Inl have eq: "process_results g zs (ready, ?res1, ?st1) = (ready', res', st')"
      by simp
    show ?thesis using eq by (rule Cons.IH)
  next
    case (Inr v)
    let ?res1 = "res(b \<mapsto> Inr v)"
    let ?new = "filter (dependencies_in_results g ?res1 st) (g_dependents g b)"
    from Cons.prems(1) z Inr have eq: "process_results g zs (ready @ ?new, ?res1, st) = (ready', res', st')"
      by simp
    have "set (ready @ ?new) \<subseteq> set ready'" using eq by (rule Cons.IH)
    then show ?thesis by simp
  qed
qed

lemma process_results_promotes:
  assumes "process_results (graph_of st0 ids) zs (ready, res, st) = (ready', res', st')"
    and "same_shape st0 st"
    and "d \<in> set ids"
    and "graph_deps (graph_of st0 ids) st0 d \<subseteq> dom res'"
    and "\<forall>a \<in> graph_deps (graph_of st0 ids) st0 d. \<not> failed_in res' a"
    and "graph_deps (graph_of st0 ids) st0 d \<inter> fst ` set zs \<noteq> {}"
  shows "d \<in> set ready'"
  using assms
proof (induction zs arbitrary: ready res st)
  case Nil
  then show ?case by simp
next
  case (Cons z zs)
  let ?g = "graph_of st0 ids"
  obtain b r where z: "z = (b, r)" by (cases z)
  show ?case
  proof (cases "graph_deps ?g st0 d \<inter> fst ` set zs = {}")
    case False
    show ?thesis
    proof (cases r)
      case (Inl e)
      let ?st1 = "foldl (mark_dependent_failed b) st (g_dependents ?g b)"
      let ?res1 = "res(b \<mapsto> Inl (str_of e))"
      from Cons.prems(1) z Inl have eq: "process_results ?g zs (ready, ?res1, ?st1) = (ready', res', st')"
        by simp
      have sh: "same_shape st0 ?st1" using Cons.prems(2) mark_all_shape by (rule same_shape_trans)
      show ?thesis using eq sh Cons.prems(3,4,5) False by (rule Cons.IH)
    next
      case (Inr v)
      let ?res1 = "res(b \<mapsto> Inr v)"
      let ?new = "filter (dependencies_in_results ?g ?res1 st) (g_dependents ?g b)"
      from Cons.prems(1) z Inr have eq: "process_results ?g zs (ready @ ?new, ?res1, st) = (ready', res', st')"
        by simp
      show ?thesis using eq Cons.prems(2,3,4,5) False by (rule Cons.IH)
    qed
  next
    case True
    with Cons.prems(6) z have bd: "b \<in> graph_deps ?g st0 d" and bz: "b \<notin> fst ` set zs" by auto
    from bd Cons.prems(5) have nf: "\<not> failed_in res' b" by blast
    show ?thesis
    proof (cases r)
      case (Inl e)
      let ?st1 = "foldl (mark_dependent_failed b) st (g_dependents ?g b)"
      let ?res1 = "res(b \<mapsto> Inl (str_of e))"
      from Cons.prems(1) z Inl have eq: "process_results ?g zs (ready, ?res1, ?st1) = (ready', res', st')"
        by simp
      have "res' b = ?res1 b" using eq bz by (rule process_results_keeps)
      then have "failed_in res' b" by (simp add: failed_in_def)
      with nf show ?thesis by simp
    next
      case (Inr v)
      let ?res1 = "res(b \<mapsto> Inr v)"
      let ?new = "filter (dependencies_in_results ?g ?res1 st) (g_dependents ?g b)"
      from Cons.prems(1) z Inr have eq: "process_results ?g zs (ready @ ?new, ?res1, st) = (ready', res', st')"
        by simp
      have dom': "dom res' = dom ?res1 \<union> fst ` set zs"
        using process_results_props(1) [OF eq] .
      with Cons.prems(4) True have "graph_deps ?g st0 d \<subseteq> dom ?res1" by blast
      with graph_deps_shape [OF Cons.prems(2), of ?g d]
      have "dependencies_in_results ?g ?res1 st d" by (simp add: dependencies_in_results_iff)
      moreover from bd Cons.prems(3) have "d \<in> set (g_dependents ?g b)"
        by (simp add: dependents_iff graph_deps_def)
      ultimately have "d \<in> set (ready @ ?new)" by simp
      with process_results_ready_mono [OF eq] show ?thesis by blast
    qed
  qed
qed

lemma promoted_round:
  assumes I: "workflow_inv (graph_of st0 ids) st0 ready res st"
    and C: "promoted_inv (graph_of st0 ids) st0 ready res"
    and g: "gather st ready = (trs, st1)"
    and p: "process_results (graph_of st0 ids) (zip ready trs) ([], res, st1) = (ready', res', st2)"
  shows "promoted_inv (graph_of st0 ids) st0 ready' res'"
  unfolding promoted_inv_def keys_graph_of
proof (intro ballI impI)
  let ?g = "graph_of st0 ids"
  fix d
  assume d: "d \<in> set ids"
    and ok: "graph_deps ?g st0 d \<subseteq> dom res' \<and> (\<forall>a \<in> graph_deps ?g st0 d. \<not> failed_in res' a)"
  from I have disj: "set ready \<inter> dom res = {}" and sh: "same_shape st0 st"
    by (simp_all add: workflow_inv_def)
  from g gather_length [of st ready] have len: "length trs = length ready" by simp
  then have ids_zip: "fst ` set (zip ready trs) = set ready"
    by (metis map_fst_zip set_map)
  note round = workflow_round [OF I g p]
  from g gather_shape [of st ready] sh have sh1: "same_shape st0 st1"
    using same_shape_trans by fastforce
  have old: "res' x = res x" if "x \<in> dom res" for x
  proof -
    from that disj have "x \<notin> fst ` set (zip ready trs)" unfolding ids_zip by blast
    with p show ?thesis by (rule process_results_keeps)
  qed
  show "d \<in> dom res' \<union> set ready'"
  proof (cases "graph_deps ?g st0 d \<subseteq> dom res")
    case True
    moreover have "\<not> failed_in res a" if "a \<in> graph_deps ?g st0 d" for a
    proof -
      from that True have "a \<in> dom res" by blast
      from ok that have "\<not> failed_in res' a" by blast
      with old [OF \<open>a \<in> dom res\<close>] show ?thesis by (simp add: failed_in_def)
    qed
    ultimately have "d \<in> dom res \<union> set ready"
      using C d unfolding promoted_inv_def keys_graph_of by blast
    with round(2) show ?thesis by blast
  next
    case False
    with ok round(2) have "graph_deps ?g st0 d \<inter> fst ` set (zip ready trs) \<noteq> {}"
      unfolding ids_zip by blast
    with process_results_promotes [OF p sh1 d] ok show ?thesis by blast
  qed
qed

lemma initial_promoted: "promoted_inv (graph_of st ids) st (initial_ready (graph_of st ids)) Map.empty"
  unfolding promoted_inv_def keys_graph_of
  by (auto simp: initial_ready_def graph_of_def set_dict_keys list_all_iff graph_deps_def)

lemma all_done:
  assumes C: "promoted_inv (graph_of st ids) st [] res"
    and r: "ranked st ids rank" and nf: "\<forall>k. \<not> failed_in res k" and sub: "dom res \<subseteq> set ids"
  shows "dom res = set ids"
proof -
  have "d \<in> set ids \<longrightarrow> d \<in> dom res" for d
  proof (induction "rank d" arbitrary: d rule: less_induct)
    case less
    show ?case
    proof
      assume d: "d \<in> set ids"
      have "a \<in> dom res" if "a \<in> graph_deps (graph_of st ids) st d" for a
      proof -
        from that have a: "a \<in> set (task_dependencies st d)" "a \<in> set ids"
          by (simp_all add: graph_deps_def keys_graph_of)
        with r d have "rank a < rank d" unfolding ranked_def by blast
        from less.hyps [OF this] a(2) show ?thesis by blast
      qed
      then have "graph_deps (graph_of st ids) st d \<subseteq> dom res" by blast
      with C nf d show "d \<in> dom res" unfolding promoted_inv_def keys_graph_of by simp
    qed
  qed
  with sub show ?thesis by blast
qed




end
